theory Spec2Isabelle
  imports Main "HOL-Library.Word" "HOL-Library.Sublist" "HOL-Library.Char_ord"
    "HOL-Library.List_Lexorder"
begin

unbundle bit_operations_syntax

section \<open>Labels, state ids and arcs\<close>

text \<open>
  Labels and state ids are signed 32-bit integers in the sources; they are modelled as
  \<open>int\<close>. No property below depends on their overflow: the only arithmetic on them is
  \<open>s + 1\<close> in the string compactors and \<open>s * Size()\<close>, whose truncation to the index
  type is written out where the sources truncate.

  Modelled from the spec: the constants \<open>kNoLabel\<close> and \<open>kNoStateId\<close> of fst/fst.h,
  which is not among the sources; the data model gives both the value \<open>-1\<close>.
\<close>

type_synonym Label = int
type_synonym StateId = int

definition kNoLabel :: Label where
  "kNoLabel = -1"

definition kNoStateId :: StateId where
  "kNoStateId = -1"

record 'w Arc =
  ilabel :: Label
  olabel :: Label
  weight :: 'w
  nextstate :: StateId

definition Arc :: "Label \<Rightarrow> Label \<Rightarrow> 'w \<Rightarrow> StateId \<Rightarrow> 'w Arc" where
  "Arc il ol w n = \<lparr>ilabel = il, olabel = ol, weight = w, nextstate = n\<rparr>"

section \<open>Expectation weights (expectation-weight.h)\<close>

text \<open>
  \<open>ExpectationWeight<W1, W2>\<close> is a pair weight with the two components \<open>Value1\<close>
  and \<open>Value2\<close>. The component weight classes \<open>W1\<close> and \<open>W2\<close> are template
  parameters. A weight class is modelled as the record of what the sources use of it:
  the static members \<open>W::Zero()\<close> and \<open>W::One()\<close> and the free functions \<open>Plus\<close>
  and \<open>Times\<close> on \<open>W\<close>. The calls \<open>Times(w1.Value1(), w2.Value2())\<close> and
  \<open>Times(w1.Value2(), w2.Value1())\<close> are resolved by overloading to \<open>Times(W1, W2)\<close>
  and to \<open>Times(W2, W1)\<close>, the external product of the two semirings that the comment
  of the class requires, in its two argument orders: they are the parameters
  \<open>Times12\<close> and \<open>Times21\<close>. When \<open>W1\<close> and \<open>W2\<close> are one type both are \<open>Times\<close>
  of that type.
\<close>

record 'w WeightClass =
  W_Zero :: 'w
  W_One :: 'w
  W_Plus :: "'w \<Rightarrow> 'w \<Rightarrow> 'w"
  W_Times :: "'w \<Rightarrow> 'w \<Rightarrow> 'w"

datatype ('w1, 'w2) ExpectationWeight =
  ExpectationWeight (Value1: 'w1) (Value2: 'w2)



definition ExpectationWeight_Plus ::
  "'w1 WeightClass \<Rightarrow> 'w2 WeightClass \<Rightarrow>
   ('w1, 'w2) ExpectationWeight \<Rightarrow> ('w1, 'w2) ExpectationWeight \<Rightarrow>
   ('w1, 'w2) ExpectationWeight" where
  "ExpectationWeight_Plus W1 W2 w1 w2 =
     ExpectationWeight (W_Plus W1 (Value1 w1) (Value1 w2)) (W_Plus W2 (Value2 w1) (Value2 w2))"




section \<open>Property bits\<close>

text \<open>
  Modelled from the spec: the property constants of fst/properties.h and the accessors
  \<open>FstImpl::Properties\<close> and \<open>FstImpl::SetProperties\<close> of fst/fst.h, which are not
  among the sources. The spec describes the properties as a 64-bit set with the bits
  \<open>Expanded\<close>, \<open>Error\<close>, \<open>Acceptor\<close>, \<open>String\<close>, \<open>Unweighted\<close>, and says that
  the \<open>Error\<close> bit is sticky: once set, it is never cleared. The constants are distinct
  single bits; \<open>SetProperties\<close> overwrites the bits it is given and keeps \<open>Error\<close>.
\<close>

type_synonym uint64 = "64 word"
type_synonym uint32 = "32 word"

definition kExpanded :: uint64 where
  "kExpanded = 0x0000000000000001"

definition kError :: uint64 where
  "kError = 0x0000000000000004"

definition kAcceptor :: uint64 where
  "kAcceptor = 0x0000000000010000"

definition kUnweighted :: uint64 where
  "kUnweighted = 0x0000000200000000"

definition kString :: uint64 where
  "kString = 0x0000100000000000"

section \<open>Compactors and the compact store (compact-fst.h)\<close>

text \<open>
  The input of the compaction is an expanded \<open>Fst<Arc>\<close> with the dense states
  \<open>0, \<dots>, n - 1\<close>. The record \<open>Fst\<close> holds what the sources read from it: its
  start state, per state the final weight and the out-arcs in iteration order, and the
  property bits that \<open>fst.Properties(mask, true)\<close> reports.

  A compactor is a class with the members \<open>Compact\<close>, \<open>Expand\<close>, \<open>Size\<close>,
  \<open>Properties\<close> and \<open>Compatible\<close>; it is a template parameter of the store and of the
  FST, and is modelled as a record of its members. \<open>Expand\<close> takes the arc-value flags
  as its third argument. The input of \<open>Compatible\<close> is the FST to compact.

  Modelled from the spec: the arc-value flags of fst/fst.h, which is not among the
  sources; the spec says that the flags select which fields of the arc must be valid.
  They are distinct bits, and \<open>kArcValueFlags\<close> is all of them.
\<close>

definition kArcILabelValue :: uint32 where
  "kArcILabelValue = 0x0001"

definition kArcOLabelValue :: uint32 where
  "kArcOLabelValue = 0x0002"

definition kArcWeightValue :: uint32 where
  "kArcWeightValue = 0x0004"

definition kArcNextStateValue :: uint32 where
  "kArcNextStateValue = 0x0008"

definition kArcValueFlags :: uint32 where
  "kArcValueFlags =
     kArcILabelValue OR kArcOLabelValue OR kArcWeightValue OR kArcNextStateValue"

record 'w Fst =
  fst_start :: StateId
  fst_states :: "('w \<times> 'w Arc list) list"
  fst_properties :: uint64

definition fst_Final :: "'w Fst \<Rightarrow> nat \<Rightarrow> 'w" where
  "fst_Final f s = fst (fst_states f ! s)"

definition fst_Arcs :: "'w Fst \<Rightarrow> nat \<Rightarrow> 'w Arc list" where
  "fst_Arcs f s = snd (fst_states f ! s)"

record ('w, 'e) Compactor =
  Compact :: "StateId \<Rightarrow> 'w Arc \<Rightarrow> 'e"
  Expand :: "StateId \<Rightarrow> 'e \<Rightarrow> uint32 \<Rightarrow> 'w Arc"
  Size :: int
  CompactorProperties :: uint64
  Compatible :: "'w Fst \<Rightarrow> bool"

text \<open>
  The five standard compactors. \<open>Weight::One()\<close> is the parameter \<open>wOne\<close>.
  \<open>Compatible(fst)\<close> is \<open>fst.Properties(props, true) == props\<close>.
\<close>

definition Compatible_with :: "uint64 \<Rightarrow> 'w Fst \<Rightarrow> bool" where
  "Compatible_with props f = (fst_properties f AND props = props)"

definition StringCompactor :: "'w \<Rightarrow> ('w, Label) Compactor" where
  "StringCompactor wOne =
     \<lparr>Compact = (\<lambda>s arc. ilabel arc),
      Expand = (\<lambda>s p f. Arc p p wOne (if p \<noteq> kNoLabel then s + 1 else kNoStateId)),
      Size = 1,
      CompactorProperties = kString OR kAcceptor OR kUnweighted,
      Compatible = Compatible_with (kString OR kAcceptor OR kUnweighted)\<rparr>"

definition WeightedStringCompactor :: "('w, Label \<times> 'w) Compactor" where
  "WeightedStringCompactor =
     \<lparr>Compact = (\<lambda>s arc. (ilabel arc, weight arc)),
      Expand = (\<lambda>s p f. Arc (fst p) (fst p) (snd p)
                           (if fst p \<noteq> kNoLabel then s + 1 else kNoStateId)),
      Size = 1,
      CompactorProperties = kString OR kAcceptor,
      Compatible = Compatible_with (kString OR kAcceptor)\<rparr>"

definition UnweightedAcceptorCompactor :: "'w \<Rightarrow> ('w, Label \<times> StateId) Compactor" where
  "UnweightedAcceptorCompactor wOne =
     \<lparr>Compact = (\<lambda>s arc. (ilabel arc, nextstate arc)),
      Expand = (\<lambda>s p f. Arc (fst p) (fst p) wOne (snd p)),
      Size = -1,
      CompactorProperties = kAcceptor OR kUnweighted,
      Compatible = Compatible_with (kAcceptor OR kUnweighted)\<rparr>"

definition AcceptorCompactor :: "('w, (Label \<times> 'w) \<times> StateId) Compactor" where
  "AcceptorCompactor =
     \<lparr>Compact = (\<lambda>s arc. ((ilabel arc, weight arc), nextstate arc)),
      Expand = (\<lambda>s p f. Arc (fst (fst p)) (fst (fst p)) (snd (fst p)) (snd p)),
      Size = -1,
      CompactorProperties = kAcceptor,
      Compatible = Compatible_with kAcceptor\<rparr>"

definition UnweightedCompactor :: "'w \<Rightarrow> ('w, (Label \<times> Label) \<times> StateId) Compactor" where
  "UnweightedCompactor wOne =
     \<lparr>Compact = (\<lambda>s arc. ((ilabel arc, olabel arc), nextstate arc)),
      Expand = (\<lambda>s p f. Arc (fst (fst p)) (snd (fst p)) wOne (snd p)),
      Size = -1,
      CompactorProperties = kUnweighted,
      Compatible = Compatible_with kUnweighted\<rparr>"

text \<open>
  The store. \<open>states\<close> is \<open>None\<close> for the null pointer; its entries have the unsigned
  index type \<open>Unsigned\<close> of the template, a word of any width. A cell of \<open>compacts\<close>
  is \<open>None\<close> until it is assigned (\<open>new Element[n]\<close> leaves the cells unset); the null
  pointer is the array of length 0. The \<open>size_t\<close> counters are natural numbers.
\<close>

record ('e, 'u) DefaultCompactStore =
  states :: "'u list option"
  compacts :: "'e option list"
  nstates :: nat
  ncompacts :: nat
  narcs :: nat
  start :: int
  error :: bool

definition DefaultCompactStore_default :: "('e, 'u::len word) DefaultCompactStore" where
  "DefaultCompactStore_default =
     \<lparr>states = None, compacts = [], nstates = 0, ncompacts = 0, narcs = 0,
      start = kNoStateId, error = False\<rparr>"

text \<open>
  \<open>States(i)\<close> and \<open>Compacts(i)\<close> read the arrays without a check; a read of the null
  pointer, out of range or of an unset cell is \<open>None\<close>.
\<close>

definition States :: "('e, 'u::len word) DefaultCompactStore \<Rightarrow> int \<Rightarrow> 'u word option" where
  "States d i =
     (case states d of
        None \<Rightarrow> None
      | Some a \<Rightarrow> if 0 \<le> i \<and> nat i < length a then Some (a ! nat i) else None)"

definition Compacts :: "('e, 'u::len word) DefaultCompactStore \<Rightarrow> nat \<Rightarrow> 'e option" where
  "Compacts d i = (if i < length (compacts d) then compacts d ! i else None)"

section \<open>The implementation class of the compact FST\<close>

text \<open>
  Modelled from the spec: the cache of fst/cache.h, which is not among the sources: per
  state an optional final weight (\<open>HasFinal\<close>, \<open>SetFinal\<close>) and an optional arc vector
  (\<open>HasArcs\<close>, \<open>PushArc\<close>, \<open>SetArcs\<close>), and an optional start state (\<open>HasStart\<close>,
  \<open>SetStart\<close>). A new FST has an empty cache.
\<close>

record ('w, 'e, 'u) CompactFstImpl =
  properties :: uint64
  compactor :: "('w, 'e) Compactor"
  data :: "('e, 'u) DefaultCompactStore"
  cache_start :: "StateId option"
  cache_final :: "StateId \<rightharpoonup> 'w"
  cache_arcs :: "StateId \<rightharpoonup> 'w Arc list"

definition Properties :: "('w, 'e, 'u::len word) CompactFstImpl \<Rightarrow> uint64 \<Rightarrow> uint64" where
  "Properties impl m = properties impl AND m"

definition SetProperties ::
  "uint64 \<Rightarrow> ('w, 'e, 'u::len word) CompactFstImpl \<Rightarrow> ('w, 'e, 'u word) CompactFstImpl" where
  "SetProperties props impl = impl\<lparr>properties := (properties impl AND kError) OR props\<rparr>"

definition SetPropertiesMask ::
  "uint64 \<Rightarrow> uint64 \<Rightarrow> ('w, 'e, 'u::len word) CompactFstImpl \<Rightarrow> ('w, 'e, 'u word) CompactFstImpl" where
  "SetPropertiesMask props m impl =
     impl\<lparr>properties := (properties impl AND (NOT m OR kError)) OR (props AND m)\<rparr>"

text \<open>
  \<open>NumStates\<close> returns a \<open>StateId\<close>: the store's \<open>size_t\<close> count is narrowed to a
  signed 32-bit value.
\<close>

definition StateId_of_size :: "nat \<Rightarrow> StateId" where
  "StateId_of_size n = sint (word_of_nat n :: 32 word)"

definition NumStates :: "('w, 'e, 'u::len word) CompactFstImpl \<Rightarrow> StateId" where
  "NumStates impl =
     (if Properties impl kError \<noteq> 0 then 0 else StateId_of_size (nstates (data impl)))"

section \<open>Errors (util.cc)\<close>

text \<open>
  The flag \<open>fst_error_fatal\<close> is defined in util.cc, with the default \<open>true\<close>:
  ``FST errors are fatal; o.w. return objects flagged as bad''. It is a global that a
  program can set, and a parameter of the functions that report an error.

  Modelled from the spec: the macro \<open>FSTERROR()\<close> of fst/log.h, which is not among the
  sources. The spec says that the knob \<open>fst_error_fatal\<close> lets errors terminate the
  process and that otherwise they are surfaced through the normal paths: with the flag
  set \<open>FSTERROR()\<close> logs at the level \<open>FATAL\<close> and the process terminates there,
  with the flag cleared it logs the error and the function goes on. A function that can
  reach \<open>FSTERROR()\<close> returns an option, \<open>None\<close> when the process has terminated;
  the second argument of \<open>FSTERROR\<close> is the result of the statements that follow it
  in the source.
\<close>

definition fst_error_fatal_default :: bool where
  "fst_error_fatal_default = True"

definition FSTERROR :: "bool \<Rightarrow> 'a \<Rightarrow> 'a option" where
  "FSTERROR fst_error_fatal rest = (if fst_error_fatal then None else Some rest)"

section \<open>Building the store from an FST\<close>

text \<open>
  Weights are compared with \<open>!=\<close> against \<open>Weight::Zero()\<close>, a parameter
  (\<open>wZero\<close>) of the functions that need it. \<open>num_transitions\<close> is the number of
  compacted transitions of a state: its arcs, and one more when its final weight is
  not \<open>Zero\<close>.
\<close>

definition num_transitions :: "'w \<Rightarrow> 'w Fst \<Rightarrow> nat \<Rightarrow> nat" where
  "num_transitions wZero f s =
     (if fst_Final f s \<noteq> wZero then 1 else 0) + length (fst_Arcs f s)"

text \<open>\<open>compacts_[pos++] = x\<close> on the pair of the array and \<open>pos\<close>.\<close>

definition put :: "'e \<Rightarrow> 'e option list \<times> nat \<Rightarrow> 'e option list \<times> nat" where
  "put x ap = (case ap of (a, pos) \<Rightarrow> (a[pos := Some x], Suc pos))"

text \<open>
  The body of the second loop for the state \<open>s\<close>, on the arrays \<open>compacts_\<close> and
  \<open>states_\<close> and the position \<open>pos\<close>. The first component of the result tells
  whether the check at the end of the body has failed: the constructor then leaves the
  loop, reports the error and returns.
\<close>

definition store_state ::
  "('w, 'e) Compactor \<Rightarrow> 'w \<Rightarrow> 'w Fst \<Rightarrow> nat \<Rightarrow>
   'e option list \<times> 'u::len word list option \<times> nat \<Rightarrow>
   bool \<times> 'e option list \<times> 'u word list option \<times> nat" where
  "store_state c wZero f s st =
     (case st of (a, sts, pos) \<Rightarrow>
        let fpos = pos;
            sts1 = (if Size c = -1 then map_option (\<lambda>t. t[s := word_of_nat pos]) sts
                    else sts);
            ap1 = (if fst_Final f s \<noteq> wZero
                   then put (Compact c (int s)
                              (Arc kNoLabel kNoLabel (fst_Final f s) kNoStateId)) (a, pos)
                   else (a, pos));
            ap2 = fold (\<lambda>arc. put (Compact c (int s) arc)) (fst_Arcs f s) ap1
        in (Size c \<noteq> -1 \<and> int (snd ap2 - fpos) \<noteq> Size c, fst ap2, sts1, snd ap2))"

text \<open>The loop \<open>for (s = 0; s < nstates_; ++s)\<close>, with \<open>n\<close> states still to do.\<close>

fun store_states ::
  "('w, 'e) Compactor \<Rightarrow> 'w \<Rightarrow> 'w Fst \<Rightarrow> nat \<Rightarrow> nat \<Rightarrow>
   'e option list \<times> 'u::len word list option \<times> nat \<Rightarrow>
   bool \<times> 'e option list \<times> 'u word list option \<times> nat" where
  "store_states c wZero f 0 s st = (False, st)"
| "store_states c wZero f (Suc n) s st =
     (case store_state c wZero f s st of
        (err, st') \<Rightarrow> if err then (True, st') else store_states c wZero f n (Suc s) st')"

text \<open>
  The constructor \<open>DefaultCompactStore(fst, compactor)\<close>. The first loop counts the
  states, the arcs and the final states. \<open>Size()\<close> is \<open>-1\<close> or positive by the
  compactor's contract; the product \<open>nstates_ * Size()\<close> is taken in the integers.
  The cells of a new \<open>states_\<close> array are written as 0 until they are assigned.
  At each of its three error sites the constructor calls \<open>FSTERROR()\<close>, sets
  \<open>error_\<close> and returns: the result is \<open>None\<close> when the process has terminated
  there, and the store with its error flag set otherwise.
\<close>

definition DefaultCompactStore_fst ::
  "bool \<Rightarrow> ('w, 'e) Compactor \<Rightarrow> 'w \<Rightarrow> 'w Fst \<Rightarrow>
   ('e, 'u::len word) DefaultCompactStore option" where
  "DefaultCompactStore_fst fst_error_fatal c wZero f =
     (let n = length (fst_states f);
          na = sum_list (map (\<lambda>q. length (snd q)) (fst_states f));
          nfinals = length (filter (\<lambda>q. fst q \<noteq> wZero) (fst_states f));
          d = DefaultCompactStore_default\<lparr>start := fst_start f, nstates := n, narcs := na\<rparr>;
          nc = (if Size c = -1 then na + nfinals else nat (int n * Size c))
      in if Size c \<noteq> -1 \<and> na + nfinals \<noteq> nc
         then FSTERROR fst_error_fatal (d\<lparr>ncompacts := nc, error := True\<rparr>)
         else
           (case store_states c wZero f n 0
                   (replicate nc None,
                    if Size c = -1 then Some ((replicate (n + 1) 0)[n := word_of_nat nc])
                    else None,
                    0) of
              (err, a, sts, pos) \<Rightarrow>
                if err
                then FSTERROR fst_error_fatal
                       (d\<lparr>states := sts, compacts := a, ncompacts := nc, error := True\<rparr>)
                else if pos \<noteq> nc
                then FSTERROR fst_error_fatal
                       (d\<lparr>states := sts, compacts := a, ncompacts := nc, error := True\<rparr>)
                else Some (d\<lparr>states := sts, compacts := a, ncompacts := nc\<rparr>)))"

text \<open>
  \<open>CompactFstImpl::Init(fst, data)\<close> with no store given: the store is built by the
  constructor above, and when that terminates the process so does \<open>Init\<close>.
  \<open>kStaticProperties\<close> is \<open>kExpanded\<close>. The value \<open>copy_properties\<close> is computed
  from the input FST by \<open>Fst::Properties\<close> and \<open>CheckProperties\<close>, which are not
  among the sources: it is a parameter. A new implementation object has no property bit
  set.
\<close>

definition kStaticProperties :: uint64 where
  "kStaticProperties = kExpanded"

definition CompactFstImpl_new ::
  "('w, 'e) Compactor \<Rightarrow> ('e, 'u::len word) DefaultCompactStore \<Rightarrow>
   ('w, 'e, 'u word) CompactFstImpl" where
  "CompactFstImpl_new c d =
     \<lparr>properties = 0, compactor = c, data = d,
      cache_start = None, cache_final = Map.empty, cache_arcs = Map.empty\<rparr>"

definition Init_fst ::
  "bool \<Rightarrow> ('w, 'e) Compactor \<Rightarrow> 'w \<Rightarrow> 'w Fst \<Rightarrow> uint64 \<Rightarrow>
   ('w, 'e, 'u::len word) CompactFstImpl option" where
  "Init_fst fst_error_fatal c wZero f copy_properties =
     (case DefaultCompactStore_fst fst_error_fatal c wZero f of
        None \<Rightarrow> None
      | Some d \<Rightarrow>
          let impl = CompactFstImpl_new c d;
              impl1 = (if error (data impl) then SetPropertiesMask kError kError impl
                       else impl)
          in if copy_properties AND kError \<noteq> 0 \<or> \<not> Compatible c f
             then FSTERROR fst_error_fatal (SetPropertiesMask kError kError impl1)
             else Some (SetProperties (copy_properties OR kStaticProperties) impl1))"

section \<open>Building the store from a sequence of elements\<close>

text \<open>
  The constructor \<open>DefaultCompactStore(begin, end, compactor)\<close>; the iterator range is
  the list \<open>xs\<close>. \<open>copy_elements\<close> is the loop that copies the elements and counts
  the arcs, on the array, the index \<open>i\<close> and \<open>narcs_\<close>. \<open>Expand\<close> is called with
  its default flags \<open>kArcValueFlags\<close>.
\<close>

fun copy_elements ::
  "('w, 'e) Compactor \<Rightarrow> 'e list \<Rightarrow> 'e option list \<times> nat \<times> nat \<Rightarrow>
   'e option list \<times> nat \<times> nat" where
  "copy_elements c [] st = st"
| "copy_elements c (x # xs) (a, i, na) =
     copy_elements c xs
       (a[i := Some x], Suc i,
        if ilabel (Expand c (int i) x kArcValueFlags) \<noteq> kNoLabel then Suc na else na)"

text \<open>
  The two loops of the variable out-degree branch. The first counts the states, the
  compacts and the arcs, and expands each element at its index in the input; the second
  fills the arrays and expands each element at the index \<open>i\<close> it will have in
  \<open>compacts_\<close>. A cell of the arrays that the second loop would write beyond their
  end is not written.
\<close>

fun count_elements ::
  "('w, 'e) Compactor \<Rightarrow> 'w \<Rightarrow> 'e list \<Rightarrow> nat \<times> nat \<times> nat \<times> nat \<Rightarrow> nat \<times> nat \<times> nat \<times> nat" where
  "count_elements c wZero [] st = st"
| "count_elements c wZero (x # xs) (i, ns, nc, na) =
     (let arc = Expand c (int i) x kArcValueFlags
      in count_elements c wZero xs
           (if ilabel arc \<noteq> kNoLabel then (Suc i, ns, Suc nc, Suc na)
            else (Suc i, Suc ns, if weight arc \<noteq> wZero then Suc nc else nc, na)))"

fun fill_elements ::
  "('w, 'e) Compactor \<Rightarrow> 'w \<Rightarrow> 'e list \<Rightarrow>
   'e option list \<times> 'u::len word list \<times> nat \<times> nat \<Rightarrow>
   'e option list \<times> 'u word list \<times> nat \<times> nat" where
  "fill_elements c wZero [] st = st"
| "fill_elements c wZero (x # xs) (a, sts, i, s) =
     (let arc = Expand c (int i) x kArcValueFlags
      in fill_elements c wZero xs
           (if ilabel arc \<noteq> kNoLabel then (a[i := Some x], sts, Suc i, s)
            else if weight arc \<noteq> wZero
                 then (a[i := Some x], sts[s := word_of_nat i], Suc i, Suc s)
                 else (a, sts[s := word_of_nat i], i, Suc s)))"

text \<open>
  The constructor in three parts: the number of compacts of the fixed out-degree branch
  (with the implicit final weight of strings), the rest of that branch, and the variable
  out-degree branch. Each branch has one error site, where it calls \<open>FSTERROR()\<close>,
  sets \<open>error_\<close> and returns.
\<close>

definition iter_ncompacts :: "('w, 'e) Compactor \<Rightarrow> 'e list \<Rightarrow> nat" where
  "iter_ncompacts c xs =
     (let n0 = length xs
      in if Size c = 1
         then (if n0 = 0 then n0 + 1
               else if ilabel (Expand c (int (n0 - 1)) (xs ! (n0 - 1)) kArcValueFlags)
                         \<noteq> kNoLabel
                    then n0 + 1 else n0)
         else n0)"

definition iter_fixed ::
  "bool \<Rightarrow> ('w, 'e) Compactor \<Rightarrow> 'w \<Rightarrow> 'e list \<Rightarrow> nat \<Rightarrow>
   ('e, 'u::len word) DefaultCompactStore option" where
  "iter_fixed fst_error_fatal c wOne xs nc =
     (if int nc mod Size c \<noteq> 0
      then FSTERROR fst_error_fatal
             (DefaultCompactStore_default\<lparr>ncompacts := nc, error := True\<rparr>)
      else if nc = 0 then Some DefaultCompactStore_default
      else
        (case copy_elements c xs (replicate nc None, 0, 0) of
           (a, i, na) \<Rightarrow>
             Some (DefaultCompactStore_default
               \<lparr>compacts :=
                  (if i < nc
                   then a[i := Some (Compact c (int i) (Arc kNoLabel kNoLabel wOne kNoStateId))]
                   else a),
                nstates := nat (int nc div Size c), ncompacts := nc, narcs := na,
                start := 0\<rparr>)))"

definition iter_variable ::
  "bool \<Rightarrow> ('w, 'e) Compactor \<Rightarrow> 'w \<Rightarrow> 'e list \<Rightarrow>
   ('e, 'u::len word) DefaultCompactStore option" where
  "iter_variable fst_error_fatal c wZero xs =
     (if length xs = 0 then Some DefaultCompactStore_default
      else
        (case count_elements c wZero xs (0, 0, 0, 0) of
           (n, ns, nc, na) \<Rightarrow>
             (case fill_elements c wZero xs
                     (replicate nc None, (replicate (ns + 1) 0)[ns := word_of_nat nc], 0, 0) of
                (a, sts, i, s) \<Rightarrow>
                  let d = DefaultCompactStore_default
                            \<lparr>states := Some sts, compacts := a, nstates := ns,
                             ncompacts := nc, narcs := na, start := 0\<rparr>
                  in if s \<noteq> ns \<or> i \<noteq> nc
                     then FSTERROR fst_error_fatal (d\<lparr>error := True\<rparr>)
                     else Some d)))"

definition DefaultCompactStore_iter ::
  "bool \<Rightarrow> ('w, 'e) Compactor \<Rightarrow> 'w \<Rightarrow> 'w \<Rightarrow> 'e list \<Rightarrow>
   ('e, 'u::len word) DefaultCompactStore option" where
  "DefaultCompactStore_iter fst_error_fatal c wZero wOne xs =
     (if Size c \<noteq> -1 then iter_fixed fst_error_fatal c wOne xs (iter_ncompacts c xs)
      else iter_variable fst_error_fatal c wZero xs)"

text \<open>
  \<open>CompactFstImpl::Init(begin, end)\<close>; when the constructor of the store terminates
  the process so does \<open>Init\<close>.
\<close>

definition Init_iter ::
  "bool \<Rightarrow> ('w, 'e) Compactor \<Rightarrow> 'w \<Rightarrow> 'w \<Rightarrow> 'e list \<Rightarrow>
   ('w, 'e, 'u::len word) CompactFstImpl option" where
  "Init_iter fst_error_fatal c wZero wOne xs =
     (case DefaultCompactStore_iter fst_error_fatal c wZero wOne xs of
        None \<Rightarrow> None
      | Some d \<Rightarrow>
          let impl = SetProperties (kStaticProperties OR CompactorProperties c)
                       (CompactFstImpl_new c d)
          in Some (if error (data impl) then SetPropertiesMask kError kError impl
                   else impl))"

section \<open>Reading a compact FST\<close>

text \<open>
  \<open>ComputeArc(s, i, f)\<close> takes the index as an \<open>Unsigned\<close>: the callers' \<open>s * Size()\<close>
  is truncated to that type. The functions return \<open>None\<close> when they read outside the
  arrays. \<open>Start\<close> fills the cache and returns the implementation object with it.
\<close>

definition ComputeArc ::
  "('w, 'e, 'u::len word) CompactFstImpl \<Rightarrow> StateId \<Rightarrow> 'u word \<Rightarrow> uint32 \<Rightarrow> 'w Arc option" where
  "ComputeArc impl s i f =
     map_option (\<lambda>e. Expand (compactor impl) s e f) (Compacts (data impl) (unat i))"

definition Start ::
  "('w, 'e, 'u::len word) CompactFstImpl \<Rightarrow> StateId \<times> ('w, 'e, 'u word) CompactFstImpl" where
  "Start impl =
     (case cache_start impl of
        Some s \<Rightarrow> (s, impl)
      | None \<Rightarrow> (start (data impl), impl\<lparr>cache_start := Some (start (data impl))\<rparr>))"

definition Final :: "'w \<Rightarrow> ('w, 'e, 'u::len word) CompactFstImpl \<Rightarrow> StateId \<Rightarrow> 'w option" where
  "Final wZero impl s =
     (case cache_final impl s of
        Some w \<Rightarrow> Some w
      | None \<Rightarrow>
          let c = compactor impl; d = data impl;
              sel = (\<lambda>arc. if ilabel arc = kNoLabel then weight arc else wZero)
          in if Size c \<noteq> -1
             then map_option sel (ComputeArc impl s (word_of_int (s * Size c)) kArcValueFlags)
             else (case States d s of
                     None \<Rightarrow> None
                   | Some a \<Rightarrow>
                       (case States d (s + 1) of
                          None \<Rightarrow> None
                        | Some b \<Rightarrow>
                            if a \<noteq> b
                            then map_option sel (ComputeArc impl s a kArcValueFlags)
                            else Some wZero)))"

definition NumArcs :: "('w, 'e, 'u::len word) CompactFstImpl \<Rightarrow> StateId \<Rightarrow> nat option" where
  "NumArcs impl s =
     (case cache_arcs impl s of
        Some arcs \<Rightarrow> Some (length arcs)
      | None \<Rightarrow>
          let c = compactor impl; d = data impl
          in (case (if Size c = -1
                    then (case States d s of
                            None \<Rightarrow> None
                          | Some a \<Rightarrow>
                              (case States d (s + 1) of
                                 None \<Rightarrow> None
                               | Some b \<Rightarrow> Some (a, b - a)))
                    else Some (word_of_int (s * Size c), word_of_int (Size c))) of
                None \<Rightarrow> None
              | Some (i, num_arcs) \<Rightarrow>
                  if 0 < num_arcs
                  then (case ComputeArc impl s i kArcILabelValue of
                          None \<Rightarrow> None
                        | Some arc \<Rightarrow>
                            Some (unat (if ilabel arc = kNoStateId then num_arcs - 1
                                        else num_arcs)))
                  else Some (unat num_arcs)))"

section \<open>The arc iterator of a compact FST over the default store\<close>

text \<open>
  The iterator keeps the compactor, the state, the pointer \<open>compacts_\<close> into the
  store's array (the array and an index into it; \<open>None\<close> is the null pointer), the
  position, the number of arcs and the flags. The \<open>size_t\<close> subtraction
  \<open>States(s + 1) - offset\<close> wraps around when the second operand is the larger one. A
  negative state id makes the fixed out-degree offset \<open>s * Size()\<close> point outside the
  array: the constructor's read fails.
\<close>

record ('w, 'e) ArcIterator =
  it_compactor :: "('w, 'e) Compactor"
  it_state :: StateId
  it_array :: "'e option list"
  it_compacts :: "nat option"
  it_pos :: nat
  it_num_arcs :: nat
  it_flags :: uint32

definition size_t_sub :: "nat \<Rightarrow> nat \<Rightarrow> nat" where
  "size_t_sub x y = (if y \<le> x then x - y else 2 ^ 64 - (y - x))"

definition ArcIterator_new ::
  "('w, 'e, 'u::len word) CompactFstImpl \<Rightarrow> StateId \<Rightarrow> ('w, 'e) ArcIterator option" where
  "ArcIterator_new impl s =
     (let c = compactor impl; d = data impl;
          it = \<lparr>it_compactor = c, it_state = s, it_array = compacts d, it_compacts = None,
                it_pos = 0, it_num_arcs = 0, it_flags = kArcValueFlags\<rparr>
      in (case (if Size c = -1
                then (case States d s of
                        None \<Rightarrow> None
                      | Some a \<Rightarrow>
                          (case States d (s + 1) of
                             None \<Rightarrow> None
                           | Some b \<Rightarrow> Some (unat a, size_t_sub (unat b) (unat a))))
                else if s < 0 then None
                else Some (nat (s * Size c), nat (Size c))) of
            None \<Rightarrow> None
          | Some (offset, num_arcs) \<Rightarrow>
              if 0 < num_arcs
              then (case Compacts d offset of
                      None \<Rightarrow> None
                    | Some e \<Rightarrow>
                        if ilabel (Expand c s e kArcILabelValue) = kNoStateId
                        then Some (it\<lparr>it_compacts := Some (offset + 1),
                                       it_num_arcs := num_arcs - 1\<rparr>)
                        else Some (it\<lparr>it_compacts := Some offset, it_num_arcs := num_arcs\<rparr>))
              else Some (it\<lparr>it_num_arcs := num_arcs\<rparr>)))"

definition Done :: "('w, 'e) ArcIterator \<Rightarrow> bool" where
  "Done it = (it_num_arcs it \<le> it_pos it)"

definition Value :: "('w, 'e) ArcIterator \<Rightarrow> 'w Arc option" where
  "Value it =
     (case it_compacts it of
        None \<Rightarrow> None
      | Some b \<Rightarrow>
          if b + it_pos it < length (it_array it)
          then map_option (\<lambda>e. Expand (it_compactor it) (it_state it) e (it_flags it))
                 (it_array it ! (b + it_pos it))
          else None)"

definition Next :: "('w, 'e) ArcIterator \<Rightarrow> ('w, 'e) ArcIterator" where
  "Next it = it\<lparr>it_pos := it_pos it + 1\<rparr>"

text \<open>
  The loop \<open>for (; !aiter.Done(); aiter.Next()) \<dots> aiter.Value() \<dots>\<close>, collecting the
  arcs it visits.
\<close>

function ArcIterator_arcs :: "('w, 'e) ArcIterator \<Rightarrow> 'w Arc list option" where
  "ArcIterator_arcs it =
     (if Done it then Some []
      else (case Value it of
              None \<Rightarrow> None
            | Some arc \<Rightarrow> map_option ((#) arc) (ArcIterator_arcs (Next it))))"
  by pat_completeness auto
termination
  by (relation "measure (\<lambda>it. it_num_arcs it - it_pos it)") (auto simp: Done_def Next_def)

declare ArcIterator_arcs.simps [simp del]

definition arcs_of_state ::
  "('w, 'e, 'u::len word) CompactFstImpl \<Rightarrow> StateId \<Rightarrow> 'w Arc list option" where
  "arcs_of_state impl s =
     (case ArcIterator_new impl s of None \<Rightarrow> None | Some it \<Rightarrow> ArcIterator_arcs it)"

text \<open>
  The range of the state \<open>s\<close> as the class comment of the store gives it: the positions
  \<open>[s * Size(), (s + 1) * Size())\<close> with a fixed out-degree, \<open>[states_[s],
  states_[s + 1])\<close> with a variable one; \<open>state_elements\<close> are the elements there.
  It is \<open>None\<close> when the store has no such range: \<open>s\<close> is negative, the \<open>states_\<close>
  entries are missing or decrease, or a position is outside \<open>compacts_\<close> or unset.
\<close>

definition state_range ::
  "('w, 'e, 'u::len word) CompactFstImpl \<Rightarrow> StateId \<Rightarrow> (nat \<times> nat) option" where
  "state_range impl s =
     (if s < 0 then None
      else if Size (compactor impl) = -1
      then (case States (data impl) s of
              None \<Rightarrow> None
            | Some a \<Rightarrow>
                (case States (data impl) (s + 1) of
                   None \<Rightarrow> None
                 | Some b \<Rightarrow> if a \<le> b then Some (unat a, unat b - unat a) else None))
      else Some (nat (s * Size (compactor impl)), nat (Size (compactor impl))))"

definition state_elements ::
  "('w, 'e, 'u::len word) CompactFstImpl \<Rightarrow> StateId \<Rightarrow> 'e list option" where
  "state_elements impl s =
     (case state_range impl s of
        None \<Rightarrow> None
      | Some (off, n) \<Rightarrow>
          if off + n \<le> length (compacts (data impl))
             \<and> (\<forall>x \<in> set (take n (drop off (compacts (data impl)))). x \<noteq> None)
          then Some (map the (take n (drop off (compacts (data impl)))))
          else None)"

section \<open>Streams and alignment (util.cc)\<close>

text \<open>
  The streams are those of the C++ standard library; what the alignment helpers use of
  them is modelled here. An input stream is its bytes, the get position, the state bits
  \<open>eofbit\<close> and \<open>failbit\<close> (\<open>in_fail\<close> stands for \<open>failbit\<close> or \<open>badbit\<close>, what
  \<open>fail()\<close> tests) and whether its buffer can report a position (a pipe cannot).

  \<open>tellg\<close> and \<open>read\<close> are unformatted input functions: they first construct a
  sentry, which sets \<open>failbit\<close> when the stream is not \<open>good()\<close>, that is when any
  state bit is set, \<open>eofbit\<close> included. \<open>tellg\<close> then returns \<open>-1\<close> when \<open>fail()\<close>
  holds or when the buffer cannot report a position, and the position otherwise; it
  returns the stream too, whose state the sentry may have changed. \<open>read\<close> of one byte
  extracts nothing from a stream that has failed; at the end of the bytes it sets
  \<open>eofbit\<close> and \<open>failbit\<close>.
\<close>

record istream =
  in_bytes :: "char list"
  in_pos :: nat
  in_eof :: bool
  in_fail :: bool
  in_tellable :: bool

definition in_good :: "istream \<Rightarrow> bool" where
  "in_good strm = (\<not> in_eof strm \<and> \<not> in_fail strm)"

definition in_sentry :: "istream \<Rightarrow> istream" where
  "in_sentry strm = (if in_good strm then strm else strm\<lparr>in_fail := True\<rparr>)"

definition tellg :: "istream \<Rightarrow> int \<times> istream" where
  "tellg strm =
     (let s = in_sentry strm
      in (if in_fail s \<or> \<not> in_tellable s then -1 else int (in_pos s), s))"

definition read1 :: "istream \<Rightarrow> istream" where
  "read1 strm =
     (let s = in_sentry strm
      in if in_fail s then s
         else if in_pos s < length (in_bytes s) then s\<lparr>in_pos := in_pos s + 1\<rparr>
         else s\<lparr>in_eof := True, in_fail := True\<rparr>)"

text \<open>
  An output stream is the bytes of its sink, the put position, the failure state
  (\<open>failbit\<close> or \<open>badbit\<close>; an output stream does not reach the end of a file),
  whether it can report a position, and the size of the sink when it is bounded (a
  write beyond it fails). \<open>tellp\<close> returns \<open>-1\<close> when \<open>fail()\<close> holds or when the
  buffer cannot report a position. Writing a byte overwrites the byte at the put position
  or extends the sink.
\<close>

record ostream =
  out_bytes :: "char list"
  out_pos :: nat
  out_fail :: bool
  out_tellable :: bool
  out_limit :: "nat option"

definition tellp :: "ostream \<Rightarrow> int" where
  "tellp strm = (if out_fail strm \<or> \<not> out_tellable strm then -1 else int (out_pos strm))"

definition put_byte :: "char list \<Rightarrow> nat \<Rightarrow> char \<Rightarrow> char list" where
  "put_byte bs pos ch =
     (if pos < length bs then bs[pos := ch]
      else bs @ replicate (pos - length bs) (CHR 0x00) @ [ch])"

definition write1 :: "char \<Rightarrow> ostream \<Rightarrow> ostream" where
  "write1 ch strm =
     (if out_fail strm then strm
      else if (case out_limit strm of None \<Rightarrow> True | Some l \<Rightarrow> out_pos strm < l)
      then strm\<lparr>out_bytes := put_byte (out_bytes strm) (out_pos strm) ch,
                out_pos := out_pos strm + 1\<rparr>
      else strm\<lparr>out_fail := True\<rparr>)"

text \<open>
  \<open>AlignInput\<close> and \<open>AlignOutput\<close>: the loop \<open>for (i = 0; i < align; ++i)\<close> with
  \<open>k\<close> iterations left. Inside the loop \<open>align\<close> is positive, and the position is
  not negative where \<open>pos % align\<close> is computed.
\<close>

fun AlignInput_loop :: "nat \<Rightarrow> nat \<Rightarrow> istream \<Rightarrow> bool \<times> istream" where
  "AlignInput_loop 0 align strm = (True, strm)"
| "AlignInput_loop (Suc k) align strm =
     (case tellg strm of
        (pos, strm1) \<Rightarrow>
          if pos < 0 then (False, strm1)
          else if pos mod int align = 0 then (True, strm1)
          else AlignInput_loop k align (read1 strm1))"

definition AlignInput :: "istream \<Rightarrow> nat \<Rightarrow> bool \<times> istream" where
  "AlignInput strm align = AlignInput_loop align align strm"

fun AlignOutput_loop :: "nat \<Rightarrow> nat \<Rightarrow> ostream \<Rightarrow> bool \<times> ostream" where
  "AlignOutput_loop 0 align strm = (True, strm)"
| "AlignOutput_loop (Suc k) align strm =
     (let pos = tellp strm
      in if pos < 0 then (False, strm)
         else if pos mod int align = 0 then (True, strm)
         else AlignOutput_loop k align (write1 (CHR 0x00) strm))"

definition AlignOutput :: "ostream \<Rightarrow> nat \<Rightarrow> bool \<times> ostream" where
  "AlignOutput strm align = AlignOutput_loop align align strm"

text \<open>
  The number of bytes between a position and the next multiple of \<open>align\<close>, the
  \<open>(-pos) mod align\<close> of the spec.
\<close>

definition padding :: "nat \<Rightarrow> nat \<Rightarrow> nat" where
  "padding pos align = nat ((- int pos) mod int align)"

text \<open>
  Whether the sink of an output stream has room for \<open>n\<close> more bytes at the put
  position.
\<close>

definition room :: "ostream \<Rightarrow> nat \<Rightarrow> bool" where
  "room strm n = (n = 0 \<or> (case out_limit strm of None \<Rightarrow> True
                                 | Some l \<Rightarrow> out_pos strm + n \<le> l))"

text \<open>
  Concrete streams used below: an input stream of six bytes at the position 5, and an
  output stream at the position 5 whose sink holds six bytes at most.
\<close>

definition example_istream :: istream where
  "example_istream =
     \<lparr>in_bytes = ''abcdef'', in_pos = 5, in_eof = False, in_fail = False, in_tellable = True\<rparr>"

definition example_ostream :: ostream where
  "example_ostream =
     \<lparr>out_bytes = ''abcde'', out_pos = 5, out_fail = False, out_tellable = True,
      out_limit = Some 6\<rparr>"

section \<open>Mapped files (mapped-file.cc) and reading the store\<close>

text \<open>
  A \<open>MappedFile\<close> holds a memory region; a pointer to one is \<open>None\<close> when it is
  null. The three factory functions are as mapped-file.cc defines them. The region is
  its bytes.
\<close>

record MappedFile =
  region :: "char list"

definition MappedFile :: "char list \<Rightarrow> MappedFile" where
  "MappedFile r = \<lparr>region = r\<rparr>"

definition Map :: "istream \<Rightarrow> bool \<Rightarrow> string \<Rightarrow> nat \<Rightarrow> MappedFile option \<times> istream" where
  "Map istrm memorymap source sz = (None, istrm)"

definition Allocate :: "nat \<Rightarrow> int \<Rightarrow> MappedFile option" where
  "Allocate sz align = None"

definition Borrow :: "char list \<Rightarrow> MappedFile option" where
  "Borrow bytes = None"

text \<open>
  \<open>DefaultCompactStore::Read\<close>. The header and the read options are records of the
  fields the function reads. Parameters stand for what the sources do not give:
  \<open>arch_align\<close> is the default argument of \<open>AlignInput\<close>, \<open>elem_size\<close> is
  \<open>sizeof(Element)\<close>, and \<open>as_states\<close> and \<open>as_compacts\<close> read a region's bytes as
  an array of \<open>Unsigned\<close> and of \<open>Element\<close>. \<open>sizeof(Unsigned)\<close> is the width of the
  index type in bytes. \<open>IS_ALIGNED\<close> is bit 2 of the header flags. The result is
  \<open>None\<close> for the null pointer.
\<close>

record FstHeader =
  hdr_start :: int
  hdr_numstates :: nat
  hdr_numarcs :: nat
  hdr_flags :: uint32

record FstReadOptions =
  opt_map :: bool
  opt_source :: string

definition IS_ALIGNED :: uint32 where
  "IS_ALIGNED = 0x4"

definition DefaultCompactStore_Read ::
  "nat \<Rightarrow> nat \<Rightarrow> (char list \<Rightarrow> 'u::len word list) \<Rightarrow> (char list \<Rightarrow> 'e list) \<Rightarrow>
   istream \<Rightarrow> FstReadOptions \<Rightarrow> FstHeader \<Rightarrow> ('w, 'e) Compactor \<Rightarrow>
   ('e, 'u word) DefaultCompactStore option" where
  "DefaultCompactStore_Read arch_align elem_size as_states as_compacts strm opts hdr c =
     (let d0 = DefaultCompactStore_default
                 \<lparr>nstates := hdr_numstates hdr, narcs := hdr_numarcs hdr, start := hdr_start hdr\<rparr>;
          aligned = (hdr_flags hdr AND IS_ALIGNED \<noteq> 0);
          rest = (\<lambda>d strm1 nc.
             (case (if aligned then AlignInput strm1 arch_align else (True, strm1)) of
                (ok, strm2) \<Rightarrow>
                  if \<not> ok then None
                  else
                    (case Map strm2 (opt_map opts) (opt_source opts) (nc * elem_size) of
                       (r, strm3) \<Rightarrow>
                         (case r of
                            None \<Rightarrow> None
                          | Some m \<Rightarrow>
                              if in_fail strm3 then None
                              else Some (d\<lparr>ncompacts := nc,
                                           compacts := map Some (as_compacts (region m))\<rparr>)))))
      in if Size c = -1
         then
           (case (if aligned then AlignInput strm arch_align else (True, strm)) of
              (ok, strm1) \<Rightarrow>
                if \<not> ok then None
                else
                  (case Map strm1 (opt_map opts) (opt_source opts)
                          ((nstates d0 + 1) * (LENGTH('u) div 8)) of
                     (r, strm2) \<Rightarrow>
                       (case r of
                          None \<Rightarrow> None
                        | Some m \<Rightarrow>
                            if in_fail strm2 then None
                            else
                              (let sts = as_states (region m)
                               in if nstates d0 < length sts
                                  then rest (d0\<lparr>states := Some sts\<rparr>) strm2
                                         (unat (sts ! nstates d0))
                                  else None))))
         else rest d0 strm (nat (int (nstates d0) * Size c)))"

section \<open>Extracting from an archive (util.cc, extract.h)\<close>

text \<open>
  \<open>SplitString(line, delim, omit_empty_strings)\<close>. \<open>find_first_of\<close> is the member of
  \<open>std::string_view\<close>: the first position from \<open>pos\<close> on that holds one of the
  characters of \<open>delim\<close>, \<open>None\<close> for \<open>npos\<close>.
\<close>

definition find_first_of :: "string \<Rightarrow> string \<Rightarrow> nat \<Rightarrow> nat option" where
  "find_first_of line delim pos =
     (case filter (\<lambda>i. line ! i \<in> set delim) [pos..<length line] of
        [] \<Rightarrow> None
      | i # _ \<Rightarrow> Some i)"

lemma find_first_of_ge: "find_first_of line delim pos = Some i \<Longrightarrow> pos \<le> i \<and> i < length line"
proof -
  assume "find_first_of line delim pos = Some i"
  then obtain r where "filter (\<lambda>i. line ! i \<in> set delim) [pos..<length line] = i # r"
    by (auto simp: find_first_of_def split: list.splits)
  then have "i \<in> set (filter (\<lambda>i. line ! i \<in> set delim) [pos..<length line])"
    by simp
  then show ?thesis by simp
qed

function SplitString_loop ::
  "string \<Rightarrow> string \<Rightarrow> bool \<Rightarrow> nat \<Rightarrow> nat \<Rightarrow> string list \<Rightarrow> string list" where
  "SplitString_loop line delim omit_empty_strings prev_pos pos vec =
     (if pos \<le> length line
      then
        (let pos1 = (case find_first_of line delim pos of None \<Rightarrow> length line | Some i \<Rightarrow> i);
             vec1 = (if \<not> omit_empty_strings \<or> pos1 \<noteq> prev_pos
                     then vec @ [take (pos1 - prev_pos) (drop prev_pos line)]
                     else vec)
         in SplitString_loop line delim omit_empty_strings (pos1 + 1) (pos1 + 1) vec1)
      else vec)"
  by pat_completeness auto
termination
proof (relation "measure (\<lambda>(line, delim, omit, prev_pos, pos, vec). length line + 1 - pos)")
  show "wf (measure (\<lambda>(line, delim, omit, prev_pos, pos, vec). length line + 1 - pos))"
    by simp
next
  fix line delim :: string and omit_empty_strings :: bool and prev_pos pos :: nat
    and vec :: "string list" and x xa
  assume le: "pos \<le> length line"
    and x: "x = (case find_first_of line delim pos of None \<Rightarrow> length line | Some i \<Rightarrow> i)"
  have "pos \<le> x \<and> x \<le> length line"
  proof (cases "find_first_of line delim pos")
    case None
    then show ?thesis using le x by simp
  next
    case (Some i)
    then show ?thesis using find_first_of_ge [OF Some] x by simp
  qed
  then show "((line, delim, omit_empty_strings, x + 1, x + 1, xa),
              (line, delim, omit_empty_strings, prev_pos, pos, vec))
             \<in> measure (\<lambda>(line, delim, omit, prev_pos, pos, vec). length line + 1 - pos)"
    by (simp only: in_measure prod.case) arith
qed

declare SplitString_loop.simps [simp del]

definition SplitString :: "string \<Rightarrow> string \<Rightarrow> bool \<Rightarrow> string list" where
  "SplitString line delim omit_empty_strings =
     SplitString_loop line delim omit_empty_strings 0 0 []"

text \<open>
  Modelled from the spec: the archive reader of fst/extensions/far/far.h, which is not
  among the sources. The spec gives its contract: a reader over the keyed FSTs of the
  archive that exposes \<open>Done\<close>, \<open>Next\<close>, \<open>GetKey\<close>, \<open>GetFst\<close> and \<open>Find(key)\<close>;
  \<open>Find(k)\<close> returns true if and only if \<open>k\<close> is a key of the archive and then
  leaves the reader positioned at \<open>k\<close>. The reader is the list of its entries in the
  order it visits them and its position; a \<open>Find\<close> that fails leaves it as it was.
  \<open>GetKey\<close> and \<open>GetFst\<close> are called at a valid position only.
\<close>

record 'f FarReader =
  far_entries :: "(string \<times> 'f) list"
  far_pos :: nat

definition far_Done :: "'f FarReader \<Rightarrow> bool" where
  "far_Done r = (length (far_entries r) \<le> far_pos r)"

definition far_Next :: "'f FarReader \<Rightarrow> 'f FarReader" where
  "far_Next r = r\<lparr>far_pos := far_pos r + 1\<rparr>"

definition GetKey :: "'f FarReader \<Rightarrow> string" where
  "GetKey r = fst (far_entries r ! far_pos r)"

definition GetFst :: "'f FarReader \<Rightarrow> 'f" where
  "GetFst r = snd (far_entries r ! far_pos r)"

definition Find :: "'f FarReader \<Rightarrow> string \<Rightarrow> bool \<times> 'f FarReader" where
  "Find r key =
     (case filter (\<lambda>i. fst (far_entries r ! i) = key) [0..<length (far_entries r)] of
        [] \<Rightarrow> (False, r)
      | i # _ \<Rightarrow> (True, r\<lparr>far_pos := i\<rparr>))"

text \<open>
  \<open>FarWriteFst\<close> writes an FST to the file named by the source path; the files written
  are collected in order, with their paths. \<open>dec\<close> prints a number in decimal, as
  \<open>operator<<\<close> does; \<open>std::setw\<close> with \<open>std::setfill('0')\<close> pads it with zeros on
  the left. The counters \<open>i\<close> and \<open>nrep\<close> are never negative.
\<close>

fun dec :: "nat \<Rightarrow> string" where
  "dec n = (if n < 10 then [char_of (48 + n)] else dec (n div 10) @ [char_of (48 + n mod 10)])"

declare dec.simps [simp del]

record 'f extract_state =
  okey :: string
  nrep :: nat
  written :: "(string \<times> 'f) list"

definition source_path :: "int \<Rightarrow> nat \<Rightarrow> string \<Rightarrow> nat \<Rightarrow> string \<Rightarrow> string \<Rightarrow> string" where
  "source_path generate_sources i key n source_prefix source_suffix =
     source_prefix
     @ (if generate_sources \<noteq> 0
        then replicate (nat generate_sources - length (dec i)) (CHR ''0'') @ dec i
        else key @ (if 0 < n then ''.'' @ dec n else []))
     @ source_suffix"

definition FarWriteFst ::
  "'f \<Rightarrow> string \<Rightarrow> 'f extract_state \<Rightarrow> int \<Rightarrow> nat \<Rightarrow> string \<Rightarrow> string \<Rightarrow> 'f extract_state" where
  "FarWriteFst f key st generate_sources i source_prefix source_suffix =
     (let n = (if key = okey st then nrep st + 1 else 0)
      in \<lparr>okey = key, nrep = n,
          written = written st
                    @ [(source_path generate_sources i key n source_prefix source_suffix, f)]\<rparr>)"

text \<open>
  \<open>FarExtract\<close>. \<open>extract_range\<close> is the loop over a range, from the reader's position
  until the reader is done or its key is beyond \<open>end_key\<close>; \<open>extract_keys\<close> is the
  loop over the key specifications; \<open>extract_all\<close> is the loop of the case without
  keys. The first component of the result of \<open>FarExtract\<close> tells whether it logged an
  error and returned early, the second lists the files written.
\<close>

function extract_range ::
  "'f FarReader \<Rightarrow> string \<Rightarrow> 'f extract_state \<Rightarrow> nat \<Rightarrow> int \<Rightarrow> string \<Rightarrow> string \<Rightarrow>
   'f FarReader \<times> 'f extract_state \<times> nat" where
  "extract_range r end_key st i generate_sources source_prefix source_suffix =
     (if far_Done r then (r, st, i)
      else if end_key < GetKey r then (r, st, i)
      else extract_range (far_Next r) end_key
             (FarWriteFst (GetFst r) (GetKey r) st generate_sources i source_prefix source_suffix)
             (i + 1) generate_sources source_prefix source_suffix)"
  by pat_completeness auto
termination
  by (relation "measure (\<lambda>(r, e, st, i, g, p, s). length (far_entries r) - far_pos r)")
    (auto simp: far_Done_def far_Next_def)

declare extract_range.simps [simp del]

function extract_all ::
  "'f FarReader \<Rightarrow> 'f extract_state \<Rightarrow> nat \<Rightarrow> int \<Rightarrow> string \<Rightarrow> string \<Rightarrow> 'f extract_state" where
  "extract_all r st i generate_sources source_prefix source_suffix =
     (if far_Done r then st
      else extract_all (far_Next r)
             (FarWriteFst (GetFst r) (GetKey r) st generate_sources i source_prefix source_suffix)
             (i + 1) generate_sources source_prefix source_suffix)"
  by pat_completeness auto
termination
  by (relation "measure (\<lambda>(r, st, i, g, p, s). length (far_entries r) - far_pos r)")
    (auto simp: far_Done_def far_Next_def)

declare extract_all.simps [simp del]

fun extract_keys ::
  "string list \<Rightarrow> 'f FarReader \<Rightarrow> 'f extract_state \<Rightarrow> nat \<Rightarrow> int \<Rightarrow> string \<Rightarrow> string \<Rightarrow>
   string \<Rightarrow> bool \<times> 'f extract_state" where
  "extract_keys [] r st i generate_sources range_delimiter source_prefix source_suffix =
     (False, st)"
| "extract_keys (key # ks) r st i generate_sources range_delimiter source_prefix source_suffix =
     (let range_vector = SplitString key range_delimiter False
      in if length range_vector = 1
         then (case Find r key of
                 (found, r1) \<Rightarrow>
                   if \<not> found then (True, st)
                   else extract_keys ks r1
                          (FarWriteFst (GetFst r1) key st generate_sources i
                             source_prefix source_suffix)
                          (i + 1) generate_sources range_delimiter source_prefix source_suffix)
         else if length range_vector = 2
         then (let begin_key = range_vector ! 0; end_key = range_vector ! 1
               in if begin_key = [] \<or> end_key = [] then (True, st)
                  else (case Find r begin_key of
                          (found, r1) \<Rightarrow>
                            if \<not> found then (True, st)
                            else (case extract_range r1 end_key st i generate_sources
                                         source_prefix source_suffix of
                                    (r2, st2, i2) \<Rightarrow>
                                      extract_keys ks r2 st2 (i2 + 1) generate_sources
                                        range_delimiter source_prefix source_suffix)))
         else (True, st))"

definition FarExtract ::
  "'f FarReader option \<Rightarrow> int \<Rightarrow> string \<Rightarrow> string \<Rightarrow> string \<Rightarrow> string \<Rightarrow> string \<Rightarrow>
   bool \<times> (string \<times> 'f) list" where
  "FarExtract far_reader generate_sources keys key_separator range_delimiter
     source_prefix source_suffix =
     (case far_reader of
        None \<Rightarrow> (False, [])
      | Some r \<Rightarrow>
          let st = \<lparr>okey = [], nrep = 0, written = []\<rparr>
          in if keys \<noteq> []
             then (case extract_keys (SplitString keys key_separator True) r st 0
                          generate_sources range_delimiter source_prefix source_suffix of
                     (err, st1) \<Rightarrow> (err, written st1))
             else (False, written (extract_all r st 1 generate_sources
                                     source_prefix source_suffix)))"

text \<open>
  The layout the class comment of the store describes: the compacted transitions of the
  state \<open>s\<close>, the superfinal transition first when \<open>s\<close> is final and then the arcs,
  and the position of the first of them, the number of transitions of the states before
  \<open>s\<close>.
\<close>

definition state_elems :: "('w, 'e) Compactor \<Rightarrow> 'w \<Rightarrow> 'w Fst \<Rightarrow> nat \<Rightarrow> 'e list" where
  "state_elems c wZero f s =
     (if fst_Final f s \<noteq> wZero
      then [Compact c (int s) (Arc kNoLabel kNoLabel (fst_Final f s) kNoStateId)] else [])
     @ map (Compact c (int s)) (fst_Arcs f s)"

definition state_offset :: "'w \<Rightarrow> 'w Fst \<Rightarrow> nat \<Rightarrow> nat" where
  "state_offset wZero f s = sum_list (map (num_transitions wZero f) [0..<s])"

text \<open>
  An acceptor used as a concrete input below: state 0 is final with weight 7 and has
  two arcs, state 1 is final with weight 1, state 2 is not final (\<open>Zero\<close> is 0 here,
  weights are natural numbers standing for the values of a semiring).
\<close>

definition example_acceptor :: "nat Fst" where
  "example_acceptor =
     \<lparr>fst_start = 0,
      fst_states = [(7, [Arc 5 5 1 1, Arc 6 6 2 0]), (1, []), (0, [])],
      fst_properties = kAcceptor\<rparr>"

text \<open>
  Concrete inputs of the fixed out-degree regime: a string FST, the path
  \<open>0 \<rightarrow> 1 \<rightarrow> 2\<close> with the labels 5 and 6 whose last state is final with weight 1
  (\<open>One\<close>); and a compactor of the fixed out-degree 2 that compacts as the acceptor
  compactor does, with an acceptor whose states have two transitions each: state 0 is
  final with weight 7 and has one arc, state 1 is not final and has two arcs.
\<close>

definition example_string :: "nat Fst" where
  "example_string =
     \<lparr>fst_start = 0,
      fst_states = [(0, [Arc 5 5 1 1]), (0, [Arc 6 6 1 2]), (1, [])],
      fst_properties = kString OR kAcceptor OR kUnweighted\<rparr>"

definition example_compactor2 :: "('w, (Label \<times> 'w) \<times> StateId) Compactor" where
  "example_compactor2 = AcceptorCompactor\<lparr>Size := 2\<rparr>"

definition example_pairs :: "nat Fst" where
  "example_pairs =
     \<lparr>fst_start = 0,
      fst_states = [(7, [Arc 5 5 1 1]), (0, [Arc 6 6 2 0, Arc 7 7 1 1])],
      fst_properties = kAcceptor\<rparr>"

section \<open>Results\<close>

subsection \<open>The store built from an FST\<close>

lemma length_state_elems: "length (state_elems c z f s) = num_transitions z f s"
  by (simp add: state_elems_def num_transitions_def)

lemma fold_put_snd: "snd (fold (\<lambda>x. put (g x)) xs (a, pos)) = pos + length xs"
  by (induction xs arbitrary: a pos) (simp_all add: put_def)

lemma fold_put_fst:
  "pos + length xs \<le> length a \<Longrightarrow>
   fst (fold (\<lambda>x. put (g x)) xs (a, pos)) =
     take pos a @ map (\<lambda>x. Some (g x)) xs @ drop (pos + length xs) a"
proof (induction xs arbitrary: a pos)
  case Nil
  then show ?case by simp
next
  case (Cons x xs)
  have len: "pos < length a" using Cons.prems by simp
  have "fst (fold (\<lambda>x. put (g x)) (x # xs) (a, pos)) =
        fst (fold (\<lambda>x. put (g x)) xs (a[pos := Some (g x)], Suc pos))"
    by (simp add: put_def)
  also have "\<dots> = take (Suc pos) (a[pos := Some (g x)]) @ map (\<lambda>x. Some (g x)) xs
                    @ drop (Suc pos + length xs) (a[pos := Some (g x)])"
    using Cons.prems by (intro Cons.IH) simp
  also have "take (Suc pos) (a[pos := Some (g x)]) = take pos a @ [Some (g x)]"
    using len by (simp add: take_Suc_conv_app_nth)
  also have "drop (Suc pos + length xs) (a[pos := Some (g x)]) = drop (Suc pos + length xs) a"
    by simp
  finally show ?case by simp
qed

lemma store_state_err:
  "fst (store_state c z f s (a, sts, pos)) =
     (Size c \<noteq> -1 \<and> int (num_transitions z f s) \<noteq> Size c)"
  by (simp add: store_state_def Let_def fold_put_snd put_def num_transitions_def)

lemma store_state_pos:
  "snd (snd (snd (store_state c z f s (a, sts, pos)))) = pos + num_transitions z f s"
  by (simp add: store_state_def Let_def fold_put_snd put_def num_transitions_def)

lemma store_state_states:
  "fst (snd (snd (store_state c z f s (a, sts, pos)))) =
     (if Size c = -1 then map_option (\<lambda>t. t[s := word_of_nat pos]) sts else sts)"
  by (simp add: store_state_def Let_def)

lemma store_state_compacts:
  assumes "pos + num_transitions z f s \<le> length a"
  shows "fst (snd (store_state c z f s (a, sts, pos))) =
     take pos a @ map Some (state_elems c z f s) @ drop (pos + num_transitions z f s) a"
proof (cases "fst_Final f s \<noteq> z")
  case True
  have len: "pos < length a" using assms True by (simp add: num_transitions_def)
  have cap: "Suc pos + length (fst_Arcs f s) \<le> length (a[pos := Some e])" for e
    using assms True by (simp add: num_transitions_def)
  show ?thesis
    using True len
    by (simp add: store_state_def Let_def put_def fold_put_fst [OF cap] state_elems_def
        num_transitions_def take_Suc_conv_app_nth comp_def)
next
  case False
  have cap: "pos + length (fst_Arcs f s) \<le> length a"
    using assms False by (simp add: num_transitions_def)
  show ?thesis
    using False
    by (simp add: store_state_def Let_def fold_put_fst [OF cap] state_elems_def
        num_transitions_def comp_def)
qed


lemma fold_put_length: "length (fst (fold (\<lambda>x. put (g x)) xs (b, p))) = length b"
  by (induction xs arbitrary: b p) (simp_all add: put_def)

lemma store_state_length:
  "length (fst (snd (store_state c z f s (a, sts, pos)))) = length a"
  by (simp add: store_state_def Let_def put_def fold_put_length)

lemma store_state_cases:
  obtains a1 sts1 where
    "store_state c z f s (a, sts, pos) =
       (Size c \<noteq> -1 \<and> int (num_transitions z f s) \<noteq> Size c, a1,
        (if Size c = -1 then map_option (\<lambda>t. t[s := word_of_nat pos]) sts else sts),
        pos + num_transitions z f s)"
    "length a1 = length a"
    "pos + num_transitions z f s \<le> length a \<Longrightarrow>
       a1 = take pos a @ map Some (state_elems c z f s) @ drop (pos + num_transitions z f s) a"
proof -
  obtain err a1 sts1 pos1 where eq: "store_state c z f s (a, sts, pos) = (err, a1, sts1, pos1)"
    by (metis prod_cases4)
  have 1: "err = (Size c \<noteq> -1 \<and> int (num_transitions z f s) \<noteq> Size c)"
    using store_state_err [of c z f s a sts pos] by (simp add: eq)
  have 2: "pos1 = pos + num_transitions z f s"
    using store_state_pos [of c z f s a sts pos] by (simp add: eq)
  have 3: "sts1 = (if Size c = -1 then map_option (\<lambda>t. t[s := word_of_nat pos]) sts else sts)"
    using store_state_states [of c z f s a sts pos] by (simp add: eq)
  have 4: "a1 = take pos a @ map Some (state_elems c z f s) @ drop (pos + num_transitions z f s) a"
    if "pos + num_transitions z f s \<le> length a"
    using store_state_compacts [OF that, of c sts] by (simp add: eq)
  have 5: "length a1 = length a"
    using store_state_length [of c z f s a sts pos] by (simp add: eq)
  show ?thesis
    using that [of a1] eq 1 2 3 4 5 by simp
qed

lemma store_states_err:
  "fst (store_states c z f n s0 (a, sts, pos)) =
     (Size c \<noteq> -1 \<and> (\<exists>s. s0 \<le> s \<and> s < s0 + n \<and> int (num_transitions z f s) \<noteq> Size c))"
proof (induction n arbitrary: s0 a sts pos)
  case 0
  then show ?case by simp
next
  case (Suc n)
  obtain a1 sts1 where eq:
    "store_state c z f s0 (a, sts, pos) =
       (Size c \<noteq> -1 \<and> int (num_transitions z f s0) \<noteq> Size c, a1,
        sts1, pos + num_transitions z f s0)"
    using store_state_cases [of c z f s0 a sts pos] by metis
  show ?case
  proof (cases "Size c \<noteq> -1 \<and> int (num_transitions z f s0) \<noteq> Size c")
    case True
    then have "\<exists>s. s0 \<le> s \<and> s < s0 + Suc n \<and> int (num_transitions z f s) \<noteq> Size c"
      by (intro exI [of _ s0]) simp
    with True show ?thesis by (simp add: eq)
  next
    case False
    have "(\<exists>s. s0 \<le> s \<and> s < s0 + Suc n \<and> int (num_transitions z f s) \<noteq> Size c) =
          (\<exists>s. Suc s0 \<le> s \<and> s < Suc s0 + n \<and> int (num_transitions z f s) \<noteq> Size c)"
      if "Size c \<noteq> -1"
    proof -
      from False that have here: "int (num_transitions z f s0) = Size c" by simp
      show ?thesis
      proof
        assume "\<exists>s. s0 \<le> s \<and> s < s0 + Suc n \<and> int (num_transitions z f s) \<noteq> Size c"
        then obtain s where s: "s0 \<le> s" "s < s0 + Suc n" "int (num_transitions z f s) \<noteq> Size c"
          by blast
        with here have "s \<noteq> s0" by auto
        with s show "\<exists>s. Suc s0 \<le> s \<and> s < Suc s0 + n \<and> int (num_transitions z f s) \<noteq> Size c"
          by (intro exI [of _ s]) simp
      next
        assume "\<exists>s. Suc s0 \<le> s \<and> s < Suc s0 + n \<and> int (num_transitions z f s) \<noteq> Size c"
        then obtain s where "Suc s0 \<le> s" "s < Suc s0 + n" "int (num_transitions z f s) \<noteq> Size c"
          by blast
        then show "\<exists>s. s0 \<le> s \<and> s < s0 + Suc n \<and> int (num_transitions z f s) \<noteq> Size c"
          by (intro exI [of _ s]) simp
      qed
    qed
    with False show ?thesis
      using Suc.IH [of "Suc s0" a1 sts1 "pos + num_transitions z f s0"]
      by (auto simp add: eq)
  qed
qed


lemma store_states_ok:
  assumes "Size c = -1 \<or> (\<forall>s. s0 \<le> s \<and> s < s0 + n \<longrightarrow> int (num_transitions z f s) = Size c)"
    and "pos + sum_list (map (num_transitions z f) [s0..<s0 + n]) \<le> length a"
  shows "\<exists>sts'. store_states c z f n s0 (a, sts, pos) =
           (False,
            take pos a @ map Some (concat (map (state_elems c z f) [s0..<s0 + n]))
              @ drop (pos + sum_list (map (num_transitions z f) [s0..<s0 + n])) a,
            sts', pos + sum_list (map (num_transitions z f) [s0..<s0 + n]))"
  using assms
proof (induction n arbitrary: s0 a sts pos)
  case 0
  then show ?case by simp
next
  case (Suc n)
  define k where "k = num_transitions z f s0"
  define rest where "rest = sum_list (map (num_transitions z f) [Suc s0..<Suc s0 + n])"
  define es where "es = concat (map (state_elems c z f) [Suc s0..<Suc s0 + n])"
  have upt: "[s0..<s0 + Suc n] = s0 # [Suc s0..<Suc s0 + n]"
    by (simp add: upt_conv_Cons)
  have total: "sum_list (map (num_transitions z f) [s0..<s0 + Suc n]) = k + rest"
    unfolding upt k_def rest_def by simp
  have elems: "concat (map (state_elems c z f) [s0..<s0 + Suc n]) = state_elems c z f s0 @ es"
    unfolding upt es_def by simp
  have cap: "pos + k + rest \<le> length a"
    using Suc.prems(2) unfolding total by simp
  then have cap0: "pos + k \<le> length a" by simp
  obtain a1 sts1 where eq:
    "store_state c z f s0 (a, sts, pos) =
       (Size c \<noteq> -1 \<and> int k \<noteq> Size c, a1, sts1, pos + k)"
    and len1: "length a1 = length a"
    and a1: "a1 = take pos a @ map Some (state_elems c z f s0) @ drop (pos + k) a"
    using store_state_cases [of c z f s0 a sts pos] cap0 unfolding k_def by metis
  have noerr: "\<not> (Size c \<noteq> -1 \<and> int k \<noteq> Size c)"
    using Suc.prems(1) unfolding k_def by auto
  have fit: "Size c = -1 \<or>
      (\<forall>s. Suc s0 \<le> s \<and> s < Suc s0 + n \<longrightarrow> int (num_transitions z f s) = Size c)"
    using Suc.prems(1) by auto
  have cap1: "(pos + k) + sum_list (map (num_transitions z f) [Suc s0..<Suc s0 + n]) \<le> length a1"
    using cap len1 unfolding rest_def by simp
  obtain sts' where rec:
    "store_states c z f n (Suc s0) (a1, sts1, pos + k) =
       (False, take (pos + k) a1 @ map Some es @ drop (pos + k + rest) a1,
        sts', pos + k + rest)"
    using Suc.IH [OF fit cap1, of sts1] unfolding rest_def es_def by blast
  have lk: "length (state_elems c z f s0) = k"
    by (simp add: length_state_elems k_def)
  have t: "take (pos + k) a1 = take pos a @ map Some (state_elems c z f s0)"
    using cap0 by (simp add: a1 lk min_absorb2)
  have d: "drop (pos + k + rest) a1 = drop (pos + k + rest) a"
    using cap0 by (simp add: a1 lk min_absorb2 add.commute add.left_commute)
  have rec': "store_states c z f n (Suc s0) (a1, sts1, pos + k) =
       (False, take pos a @ map Some (state_elems c z f s0 @ es) @ drop (pos + (k + rest)) a,
        sts', pos + (k + rest))"
    unfolding rec t d by (simp add: add.assoc)
  have "store_states c z f (Suc n) s0 (a, sts, pos) =
          store_states c z f n (Suc s0) (a1, sts1, pos + k)"
    using noerr by (auto simp add: eq)
  then have "store_states c z f (Suc n) s0 (a, sts, pos) =
       (False, take pos a @ map Some (state_elems c z f s0 @ es) @ drop (pos + (k + rest)) a,
        sts', pos + (k + rest))"
    unfolding rec' by simp
  then show ?case
    unfolding total elems by blast
qed

lemma sum_num_transitions:
  "sum_list (map (num_transitions z f) [0..<length (fst_states f)]) =
     sum_list (map (\<lambda>q. length (snd q)) (fst_states f))
       + length (filter (\<lambda>q. fst q \<noteq> z) (fst_states f))"
proof -
  have "map (num_transitions z f) [0..<length (fst_states f)] =
        map (\<lambda>q. (if fst q \<noteq> z then 1 else 0) + length (snd q)) (fst_states f)"
    by (rule nth_equalityI) (simp_all add: num_transitions_def fst_Final_def fst_Arcs_def)
  moreover have "sum_list (map (\<lambda>q. (if fst q \<noteq> z then 1 else 0) + length (snd q)) xs) =
        sum_list (map (\<lambda>q. length (snd q)) xs) + length (filter (\<lambda>q. fst q \<noteq> z) xs)"
    for xs :: "('a \<times> 'b list) list"
    by (induction xs) simp_all
  ultimately show ?thesis by simp
qed

lemma concat_nth_offset:
  "i < length xss \<Longrightarrow> j < length (xss ! i) \<Longrightarrow>
   concat xss ! (sum_list (map length (take i xss)) + j) = xss ! i ! j"
proof (induction xss arbitrary: i)
  case Nil
  then show ?case by simp
next
  case (Cons xs xss)
  show ?case
  proof (cases i)
    case 0
    with Cons.prems show ?thesis by (simp add: nth_append)
  next
    case (Suc i')
    with Cons.prems Cons.IH [of i'] show ?thesis by (simp add: nth_append)
  qed
qed

lemma concat_length_offset:
  "i < length xss \<Longrightarrow> j < length (xss ! i) \<Longrightarrow>
   sum_list (map length (take i xss)) + j < length (concat xss)"
proof (induction xss arbitrary: i)
  case Nil
  then show ?case by simp
next
  case (Cons xs xss)
  show ?case
  proof (cases i)
    case 0
    with Cons.prems show ?thesis by simp
  next
    case (Suc i')
    with Cons.prems Cons.IH [of i'] show ?thesis by simp
  qed
qed

lemma store_states_states:
  assumes "Size c = -1" and "s0 + n \<le> length t"
  shows "\<exists>t'. fst (snd (snd (store_states c z f n s0 (a, Some t, pos)))) = Some t'
           \<and> length t' = length t
           \<and> (\<forall>s. s0 \<le> s \<and> s < s0 + n \<longrightarrow>
                 t' ! s = word_of_nat (pos + sum_list (map (num_transitions z f) [s0..<s])))
           \<and> (\<forall>i. i < s0 \<or> s0 + n \<le> i \<longrightarrow> t' ! i = t ! i)"
  using assms
proof (induction n arbitrary: s0 a t pos)
  case 0
  then show ?case by auto
next
  case (Suc n)
  define k where "k = num_transitions z f s0"
  define t1 :: "'c word list" where "t1 = t[s0 := word_of_nat pos]"
  obtain a1 where eq:
    "store_state c z f s0 (a, Some t, pos) = (False, a1, Some t1, pos + k)"
  proof -
    obtain a1 sts1 where
      "store_state c z f s0 (a, Some t, pos) =
         (Size c \<noteq> -1 \<and> int (num_transitions z f s0) \<noteq> Size c, a1,
          (if Size c = -1 then map_option (\<lambda>t. t[s0 := word_of_nat pos]) (Some t) else Some t),
          pos + num_transitions z f s0)"
      by (rule store_state_cases)
    then have "store_state c z f s0 (a, Some t, pos) = (False, a1, Some t1, pos + k)"
      using Suc.prems(1) by (simp add: k_def t1_def)
    then show ?thesis by (rule that)
  qed
  have len: "Suc s0 + n \<le> length t1"
    using Suc.prems(2) by (simp add: t1_def)
  obtain t' where t':
    "fst (snd (snd (store_states c z f n (Suc s0) (a1, Some t1, pos + k)))) = Some t'"
    "length t' = length t1"
    "\<And>s. Suc s0 \<le> s \<Longrightarrow> s < Suc s0 + n \<Longrightarrow>
       t' ! s = word_of_nat (pos + k + sum_list (map (num_transitions z f) [Suc s0..<s]))"
    "\<And>i. i < Suc s0 \<or> Suc s0 + n \<le> i \<Longrightarrow> t' ! i = t1 ! i"
    using Suc.IH [OF Suc.prems(1) len, of a1 "pos + k"] by blast
  have res: "store_states c z f (Suc n) s0 (a, Some t, pos) =
             store_states c z f n (Suc s0) (a1, Some t1, pos + k)"
    by (simp add: eq)
  have inside: "t' ! s = word_of_nat (pos + sum_list (map (num_transitions z f) [s0..<s]))"
    if "s0 \<le> s" "s < s0 + Suc n" for s
  proof (cases "s = s0")
    case True
    have "t' ! s0 = t1 ! s0" by (rule t'(4)) simp
    also have "\<dots> = word_of_nat pos"
      using Suc.prems(2) by (simp add: t1_def)
    finally show ?thesis using True by simp
  next
    case False
    with that have lt: "s0 < s" by simp
    have "[s0..<s] = s0 # [Suc s0..<s]"
      using lt by (simp add: upt_conv_Cons)
    then have "sum_list (map (num_transitions z f) [s0..<s]) =
               k + sum_list (map (num_transitions z f) [Suc s0..<s])"
      by (simp add: k_def)
    moreover have "t' ! s =
        word_of_nat (pos + k + sum_list (map (num_transitions z f) [Suc s0..<s]))"
      using lt that by (intro t'(3)) simp_all
    ultimately show ?thesis by (simp add: add.assoc)
  qed
  have outside: "t' ! i = t ! i" if "i < s0 \<or> s0 + Suc n \<le> i" for i
  proof -
    have "t' ! i = t1 ! i" using that by (intro t'(4)) auto
    also have "\<dots> = t ! i" using that by (auto simp: t1_def)
    finally show ?thesis .
  qed
  have l: "length t' = length t"
    using t'(2) by (simp add: t1_def)
  show ?case
    unfolding res
  proof (intro exI [of _ t'] conjI allI impI)
    show "fst (snd (snd (store_states c z f n (Suc s0) (a1, Some t1, pos + k)))) = Some t'"
      by (rule t'(1))
    show "length t' = length t" by (rule l)
    show "t' ! s = word_of_nat (pos + sum_list (map (num_transitions z f) [s0..<s]))"
      if "s0 \<le> s \<and> s < s0 + Suc n" for s
      using that inside by blast
    show "t' ! i = t ! i" if "i < s0 \<or> s0 + Suc n \<le> i" for i
      using that by (rule outside)
  qed
qed

lemma DefaultCompactStore_fst_loop:
  fixes c :: "('w, 'e) Compactor" and r :: "bool \<times> 'e option list \<times> 'u::len word list option \<times> nat"
    and d :: "('e, 'u word) DefaultCompactStore"
  assumes n: "n = length (fst_states f)"
    and tot: "tot = sum_list (map (\<lambda>q. length (snd q)) (fst_states f))
                + length (filter (\<lambda>q. fst q \<noteq> z) (fst_states f))"
    and nc: "nc = (if Size c = -1 then tot else nat (int n * Size c))"
    and r: "r = store_states c z f n 0
                 (replicate nc None,
                  if Size c = -1 then Some ((replicate (n + 1) 0)[n := word_of_nat nc]) else None,
                  0)"
  shows "((DefaultCompactStore_fst fatal c z f :: ('e, 'u word) DefaultCompactStore option) = None) =
           (fatal \<and> ((Size c \<noteq> -1 \<and> tot \<noteq> nc) \<or> fst r \<or> snd (snd (snd r)) \<noteq> nc))"
    and "DefaultCompactStore_fst fatal c z f = Some d \<Longrightarrow>
         error d = ((Size c \<noteq> -1 \<and> tot \<noteq> nc) \<or> fst r \<or> snd (snd (snd r)) \<noteq> nc)"
    and "DefaultCompactStore_fst fatal c z f = Some d \<Longrightarrow> \<not> (Size c \<noteq> -1 \<and> tot \<noteq> nc) \<Longrightarrow>
         compacts d = fst (snd r)"
    and "DefaultCompactStore_fst fatal c z f = Some d \<Longrightarrow> \<not> (Size c \<noteq> -1 \<and> tot \<noteq> nc) \<Longrightarrow>
         states d = fst (snd (snd r))"
  unfolding DefaultCompactStore_fst_def Let_def n tot nc r FSTERROR_def
  by (auto simp add: case_prod_beta DefaultCompactStore_default_def split: if_splits)

lemma state_offset_Suc: "state_offset z f (Suc s) = state_offset z f s + num_transitions z f s"
  by (simp add: state_offset_def)

lemma DefaultCompactStore_fst_layout:
  fixes c :: "('w, 'e) Compactor" and d :: "('e, 'u::len word) DefaultCompactStore"
  assumes built: "DefaultCompactStore_fst fatal c z f = Some d"
    and ne: "\<not> error d"
  shows "compacts d =
           map Some (concat (map (state_elems c z f) [0..<length (fst_states f)]))"
    and "Size c = -1 \<Longrightarrow>
         \<exists>t. states d = Some t
           \<and> length t = length (fst_states f) + 1
           \<and> (\<forall>s \<le> length (fst_states f). t ! s = word_of_nat (state_offset z f s))"
    and "Size c \<noteq> -1 \<Longrightarrow> s < length (fst_states f) \<Longrightarrow>
         int (num_transitions z f s) = Size c"
proof -
  define n where "n = length (fst_states f)"
  define tot where "tot = sum_list (map (\<lambda>q. length (snd q)) (fst_states f))
                + length (filter (\<lambda>q. fst q \<noteq> z) (fst_states f))"
  define nc where "nc = (if Size c = -1 then tot else nat (int n * Size c))"
  define t0 :: "'u word list" where "t0 = (replicate (n + 1) 0)[n := word_of_nat nc]"
  define r :: "bool \<times> 'e option list \<times> 'u word list option \<times> nat"
    where "r = store_states c z f n 0
                 (replicate nc None,
                  if Size c = -1 then Some ((replicate (n + 1) 0)[n := word_of_nat nc]) else None,
                  0)"
  note L = DefaultCompactStore_fst_loop(2-4) [OF n_def tot_def nc_def r_def built]
  from ne have pre: "\<not> (Size c \<noteq> -1 \<and> tot \<noteq> nc)" and noerr: "\<not> fst r"
    unfolding L(1) by simp_all
  have nc_tot: "nc = tot"
    using pre by (auto simp: nc_def)
  have sum_tot: "sum_list (map (num_transitions z f) [0..<0 + n]) = tot"
    unfolding n_def tot_def by (simp add: sum_num_transitions)
  have fit: "Size c = -1 \<or>
      (\<forall>s. 0 \<le> s \<and> s < 0 + n \<longrightarrow> int (num_transitions z f s) = Size c)"
    using noerr unfolding r_def store_states_err by blast
  show "int (num_transitions z f s) = Size c"
    if "Size c \<noteq> -1" "s < length (fst_states f)"
    using fit that by (simp add: n_def)
  have cap: "0 + sum_list (map (num_transitions z f) [0..<0 + n]) \<le> length (replicate nc (None :: 'e option))"
    unfolding sum_tot by (simp add: nc_tot)
  obtain sts' where "r = (False,
            take 0 (replicate nc None) @ map Some (concat (map (state_elems c z f) [0..<0 + n]))
              @ drop (0 + sum_list (map (num_transitions z f) [0..<0 + n])) (replicate nc None),
            sts', 0 + sum_list (map (num_transitions z f) [0..<0 + n]))"
    unfolding r_def using store_states_ok [OF fit cap] by blast
  then have "fst (snd r) = map Some (concat (map (state_elems c z f) [0..<n]))"
    unfolding sum_tot by (simp add: nc_tot)
  then show "compacts d =
           map Some (concat (map (state_elems c z f) [0..<length (fst_states f)]))"
    using L(2) [OF pre] by (simp add: n_def)
  show "\<exists>t. states d = Some t
           \<and> length t = length (fst_states f) + 1
           \<and> (\<forall>s \<le> length (fst_states f). t ! s = word_of_nat (state_offset z f s))"
    if var: "Size c = -1"
  proof -
    have r': "r = store_states c z f n 0 (replicate nc None, Some t0, 0)"
      using var by (simp add: r_def t0_def)
    have lt0: "length t0 = n + 1"
      unfolding t0_def by (simp only: length_list_update length_replicate)
    have t0n: "t0 ! n = word_of_nat nc"
      unfolding t0_def by (rule nth_list_update_eq) (simp del: replicate.simps replicate_Suc)
    have len0: "0 + n \<le> length t0" by (simp add: lt0)
    obtain t' where t':
      "fst (snd (snd r)) = Some t'" "length t' = length t0"
      "\<And>s. 0 \<le> s \<and> s < 0 + n \<Longrightarrow>
         t' ! s = word_of_nat (0 + sum_list (map (num_transitions z f) [0..<s]))"
      "\<And>i. i < 0 \<or> 0 + n \<le> i \<Longrightarrow> t' ! i = t0 ! i"
      unfolding r' using store_states_states [OF var len0, of z f "replicate nc None" 0]
      by blast
    have last: "t' ! n = word_of_nat (state_offset z f n)"
    proof -
      have "t' ! n = t0 ! n" by (rule t'(4)) simp
      also have "\<dots> = word_of_nat nc" by (rule t0n)
      also have "nc = state_offset z f n"
        using sum_tot by (simp add: nc_tot state_offset_def)
      finally show ?thesis .
    qed
    have each: "t' ! s = word_of_nat (state_offset z f s)" if "s \<le> n" for s
    proof (cases "s = n")
      case True
      then show ?thesis using last by simp
    next
      case False
      with that have "s < n" by simp
      then show ?thesis using t'(3) [of s] by (simp add: state_offset_def)
    qed
    show ?thesis
    proof (intro exI [of _ t'] conjI allI impI)
      show "states d = Some t'"
        using L(3) [OF pre] t'(1) by simp
      show "length t' = length (fst_states f) + 1"
        using t'(2) by (simp add: lt0 n_def)
      show "t' ! s = word_of_nat (state_offset z f s)" if "s \<le> length (fst_states f)" for s
        using that each by (simp add: n_def)
    qed
  qed
qed

lemma compacts_at_offset:
  fixes c :: "('w, 'e) Compactor" and d :: "('e, 'u::len word) DefaultCompactStore"
  assumes built: "DefaultCompactStore_fst fatal c z f = Some d"
    and ne: "\<not> error d"
    and s: "s < length (fst_states f)" and j: "j < num_transitions z f s"
  shows "Compacts d (state_offset z f s + j) = Some (state_elems c z f s ! j)"
proof -
  define xss where "xss = map (state_elems c z f) [0..<length (fst_states f)]"
  have comp: "compacts d = map Some (concat xss)"
    unfolding xss_def by (rule DefaultCompactStore_fst_layout(1) [OF built ne])
  have i: "s < length xss" using s by (simp add: xss_def)
  have xs: "xss ! s = state_elems c z f s" using s by (simp add: xss_def)
  have jl: "j < length (xss ! s)" using j by (simp add: xs length_state_elems)
  have "take s xss = map (state_elems c z f) [0..<s]"
    using s by (simp add: xss_def take_map)
  then have off: "sum_list (map length (take s xss)) = state_offset z f s"
    by (simp add: state_offset_def comp_def length_state_elems)
  have lt: "state_offset z f s + j < length (concat xss)"
    using concat_length_offset [OF i jl] by (simp add: off)
  have "concat xss ! (state_offset z f s + j) = state_elems c z f s ! j"
    using concat_nth_offset [OF i jl] by (simp add: off xs)
  then show ?thesis
    using lt by (simp add: Compacts_def comp)
qed

lemma fixed_state_offset:
  assumes fit: "\<forall>q < length (fst_states f). int (num_transitions z f q) = Size c"
  shows "s \<le> length (fst_states f) \<Longrightarrow> state_offset z f s = s * nat (Size c)"
proof (induction s)
  case 0
  then show ?case by (simp add: state_offset_def)
next
  case (Suc s)
  then have "s < length (fst_states f)" by simp
  then have "int (num_transitions z f s) = Size c"
    using fit by simp
  then have "num_transitions z f s = nat (Size c)" by simp
  with Suc show ?case by (simp add: state_offset_Suc)
qed

lemma DefaultCompactStore_fst_fit:
  fixes c :: "('w, 'e) Compactor"
  assumes fit: "Size c = -1 \<or>
                (\<forall>q < length (fst_states f). int (num_transitions z f q) = Size c)"
  shows "\<exists>d :: ('e, 'u::len word) DefaultCompactStore.
           DefaultCompactStore_fst fatal c z f = Some d \<and> \<not> error d"
proof -
  define n where "n = length (fst_states f)"
  define tot where "tot = sum_list (map (\<lambda>q. length (snd q)) (fst_states f))
                + length (filter (\<lambda>q. fst q \<noteq> z) (fst_states f))"
  define nc where "nc = (if Size c = -1 then tot else nat (int n * Size c))"
  define r :: "bool \<times> 'e option list \<times> 'u word list option \<times> nat"
    where "r = store_states c z f n 0
                 (replicate nc None,
                  if Size c = -1 then Some ((replicate (n + 1) 0)[n := word_of_nat nc]) else None,
                  0)"
  note L = DefaultCompactStore_fst_loop [OF n_def tot_def nc_def r_def]
  have sum_tot: "sum_list (map (num_transitions z f) [0..<0 + n]) = tot"
    unfolding n_def tot_def by (simp add: sum_num_transitions)
  have nc_tot: "nc = tot"
  proof (cases "Size c = -1")
    case True
    then show ?thesis by (simp add: nc_def)
  next
    case False
    with fit have all: "\<forall>q < length (fst_states f). int (num_transitions z f q) = Size c"
      by simp
    have "state_offset z f n = n * nat (Size c)"
      using fixed_state_offset [OF all, of n] by (simp add: n_def)
    then have t: "tot = n * nat (Size c)"
      using sum_tot by (simp add: state_offset_def)
    show ?thesis
    proof (cases "n = 0")
      case True
      then show ?thesis using False t by (simp add: nc_def)
    next
      case n0: False
      then have "0 < length (fst_states f)" by (simp add: n_def)
      with all have "int (num_transitions z f 0) = Size c" by simp
      then have "0 \<le> Size c" by simp
      then have "nat (int n * Size c) = n * nat (Size c)"
        by (simp add: nat_mult_distrib)
      then show ?thesis using False t by (simp add: nc_def)
    qed
  qed
  have fit': "Size c = -1 \<or>
      (\<forall>s. 0 \<le> s \<and> s < 0 + n \<longrightarrow> int (num_transitions z f s) = Size c)"
    using fit by (simp add: n_def)
  have noerr: "\<not> fst r"
    unfolding r_def store_states_err using fit' by blast
  have cap: "0 + sum_list (map (num_transitions z f) [0..<0 + n])
               \<le> length (replicate nc (None :: 'e option))"
    unfolding sum_tot by (simp add: nc_tot)
  obtain a' sts' where "r = (False, a', sts', 0 + sum_list (map (num_transitions z f) [0..<0 + n]))"
    unfolding r_def using store_states_ok [OF fit' cap] by blast
  then have pos: "snd (snd (snd r)) = nc"
    unfolding sum_tot by (simp add: nc_tot)
  have ok: "\<not> ((Size c \<noteq> -1 \<and> tot \<noteq> nc) \<or> fst r \<or> snd (snd (snd r)) \<noteq> nc)"
    using nc_tot noerr pos by simp
  have "(DefaultCompactStore_fst fatal c z f :: ('e, 'u word) DefaultCompactStore option) \<noteq> None"
    unfolding L(1) using ok by blast
  then obtain d :: "('e, 'u word) DefaultCompactStore"
    where d: "DefaultCompactStore_fst fatal c z f = Some d"
    by blast
  have "\<not> error d"
    unfolding L(2) [OF d] by (rule ok)
  with d show ?thesis by blast
qed

text \<open>
  C3. In both regimes, when the input FST fits the compactor (with a fixed out-degree
  every state has exactly \<open>Size()\<close> compacted transitions; with a variable out-degree
  there is no condition), the constructor returns a store without error, whatever
  \<open>fst_error_fatal\<close> is, and in it the compacted transitions of a final state \<open>s\<close>
  begin with its superfinal transition, the element compacted from
  \<open>Arc(kNoLabel, kNoLabel, Final(s), kNoStateId)\<close>, and the compacted out-arcs of \<open>s\<close>
  follow it in their order. The block of \<open>s\<close> begins at \<open>state_offset\<close>: with a
  variable out-degree that position is \<open>states_[s]\<close> (and \<open>states_[s + 1]\<close> the end of
  the block), with a fixed out-degree it is \<open>s * Size()\<close>.
\<close>

theorem superfinal_first:
  fixes c :: "('w, 'e) Compactor"
  assumes fit: "Size c = -1 \<or>
                (\<forall>q < length (fst_states f). int (num_transitions z f q) = Size c)"
    and s: "s < length (fst_states f)"
    and final: "fst_Final f s \<noteq> z"
  shows "\<exists>d :: ('e, 'u::len word) DefaultCompactStore.
           DefaultCompactStore_fst fst_error_fatal c z f = Some d
         \<and> \<not> error d
         \<and> Compacts d (state_offset z f s) =
             Some (Compact c (int s) (Arc kNoLabel kNoLabel (fst_Final f s) kNoStateId))
         \<and> (\<forall>j < length (fst_Arcs f s).
              Compacts d (state_offset z f s + 1 + j) = Some (Compact c (int s) (fst_Arcs f s ! j)))
         \<and> (Size c = -1 \<longrightarrow>
              States d (int s) = Some (word_of_nat (state_offset z f s))
              \<and> States d (int s + 1) =
                  Some (word_of_nat (state_offset z f s + 1 + length (fst_Arcs f s))))
         \<and> (Size c \<noteq> -1 \<longrightarrow>
              state_offset z f s = s * nat (Size c)
              \<and> 1 + length (fst_Arcs f s) = nat (Size c))"
proof -
  obtain d :: "('e, 'u word) DefaultCompactStore"
    where built: "DefaultCompactStore_fst fst_error_fatal c z f = Some d" and ne: "\<not> error d"
    using DefaultCompactStore_fst_fit [OF fit] by blast
  have cnt: "num_transitions z f s = 1 + length (fst_Arcs f s)"
    using final by (simp add: num_transitions_def)
  have "Compacts d (state_offset z f s + 0) = Some (state_elems c z f s ! 0)"
    by (rule compacts_at_offset [OF built ne s]) (simp add: cnt)
  then have 1: "Compacts d (state_offset z f s) =
           Some (Compact c (int s) (Arc kNoLabel kNoLabel (fst_Final f s) kNoStateId))"
    using final by (simp add: state_elems_def)
  have 2: "Compacts d (state_offset z f s + 1 + j) = Some (Compact c (int s) (fst_Arcs f s ! j))"
    if "j < length (fst_Arcs f s)" for j
  proof -
    have "Compacts d (state_offset z f s + (1 + j)) = Some (state_elems c z f s ! (1 + j))"
      by (rule compacts_at_offset [OF built ne s]) (simp add: cnt that)
    then show ?thesis
      using final that by (simp add: state_elems_def add.assoc)
  qed
  have 3: "States d (int s) = Some (word_of_nat (state_offset z f s))" if var: "Size c = -1"
  proof -
    obtain t where t: "states d = Some t"
      "length t = length (fst_states f) + 1"
      "\<And>q. q \<le> length (fst_states f) \<Longrightarrow> t ! q = word_of_nat (state_offset z f q)"
      using DefaultCompactStore_fst_layout(2) [OF built ne var] by blast
    show ?thesis
      using s t(2) t(3) [of s] by (simp add: States_def t(1))
  qed
  have 4: "States d (int s + 1) =
              Some (word_of_nat (state_offset z f s + 1 + length (fst_Arcs f s)))"
    if var: "Size c = -1"
  proof -
    obtain t where t: "states d = Some t"
      "length t = length (fst_states f) + 1"
      "\<And>q. q \<le> length (fst_states f) \<Longrightarrow> t ! q = word_of_nat (state_offset z f q)"
      using DefaultCompactStore_fst_layout(2) [OF built ne var] by blast
    have idx: "int s + 1 = int (Suc s)" by simp
    have ns: "nat (1 + int s) = Suc s" by arith
    have "States d (int (Suc s)) = Some (word_of_nat (state_offset z f (Suc s)))"
      using s t(2) t(3) [of "Suc s"] by (simp add: States_def t(1) ns)
    then show ?thesis
      unfolding idx by (simp add: state_offset_Suc cnt add.assoc)
  qed
  have all: "\<forall>q < length (fst_states f). int (num_transitions z f q) = Size c"
    if "Size c \<noteq> -1"
    using fit that by simp
  have 5: "state_offset z f s = s * nat (Size c)" if "Size c \<noteq> -1"
    using fixed_state_offset [OF all [OF that], of s] s by simp
  have 6: "1 + length (fst_Arcs f s) = nat (Size c)" if "Size c \<noteq> -1"
  proof -
    have "int (num_transitions z f s) = Size c"
      using all [OF that] s by blast
    then have "num_transitions z f s = nat (Size c)" by simp
    then show ?thesis by (simp add: cnt)
  qed
  show ?thesis
  proof (intro exI [of _ d] conjI allI impI)
    show "DefaultCompactStore_fst fst_error_fatal c z f = Some d" by (rule built)
    show "\<not> error d" by (rule ne)
    show "Compacts d (state_offset z f s) =
             Some (Compact c (int s) (Arc kNoLabel kNoLabel (fst_Final f s) kNoStateId))"
      by (rule 1)
    show "Compacts d (state_offset z f s + 1 + j) = Some (Compact c (int s) (fst_Arcs f s ! j))"
      if "j < length (fst_Arcs f s)" for j
      using that by (rule 2)
    show "States d (int s) = Some (word_of_nat (state_offset z f s))" if "Size c = -1"
      using that by (rule 3)
    show "States d (int s + 1) =
              Some (word_of_nat (state_offset z f s + 1 + length (fst_Arcs f s)))"
      if "Size c = -1"
      using that by (rule 4)
    show "state_offset z f s = s * nat (Size c)" if "Size c \<noteq> -1"
      using that by (rule 5)
    show "1 + length (fst_Arcs f s) = nat (Size c)" if "Size c \<noteq> -1"
      using that by (rule 6)
  qed
qed

lemma kError_sticky:
  "((p AND (NOT kError OR kError)) OR (kError AND kError)) AND kError = kError"
  "((p AND kError) OR q) AND kError = (p AND kError) OR (q AND kError)"
  by (simp_all add: bit_eq_iff bit_simps) blast+

text \<open>
  C4, as the code has it. With a fixed out-degree \<open>Size() = k > 0\<close>, if some state of
  the input FST does not have exactly \<open>k\<close> compacted transitions: when
  \<open>fst_error_fatal\<close> is cleared the constructor returns a store whose error flag is
  set, and \<open>Init\<close> returns a compact FST over a store with the error flag set and with
  the \<open>Error\<close> property bit; when \<open>fst_error_fatal\<close> is set, as it is by default,
  the process terminates in \<open>FSTERROR()\<close> and there is neither a store nor a compact
  FST.
\<close>

theorem fixed_out_degree_error:
  fixes c :: "('w, 'e) Compactor"
  assumes k: "0 < Size c" and s: "s < length (fst_states f)"
    and bad: "int (num_transitions z f s) \<noteq> Size c"
  shows "(\<exists>d :: ('e, 'u::len word) DefaultCompactStore.
            DefaultCompactStore_fst False c z f = Some d \<and> error d)
       \<and> (\<exists>impl :: ('w, 'e, 'u word) CompactFstImpl.
            Init_fst False c z f copy_properties = Some impl
            \<and> error (data impl) \<and> Properties impl kError = kError)
       \<and> (DefaultCompactStore_fst True c z f :: ('e, 'u word) DefaultCompactStore option) = None
       \<and> (Init_fst True c z f copy_properties :: ('w, 'e, 'u word) CompactFstImpl option) = None"
proof -
  have fixed: "Size c \<noteq> -1" using k by simp
  have err: "error d" if "DefaultCompactStore_fst fatal c z f = Some d"
    for d :: "('e, 'u word) DefaultCompactStore" and fatal
    using DefaultCompactStore_fst_layout(3) [OF that _ fixed s] bad by blast
  have "(DefaultCompactStore_fst False c z f :: ('e, 'u word) DefaultCompactStore option) \<noteq> None"
    unfolding DefaultCompactStore_fst_def Let_def FSTERROR_def
    by (simp add: case_prod_beta)
  then obtain d :: "('e, 'u word) DefaultCompactStore"
    where d: "DefaultCompactStore_fst False c z f = Some d"
    by blast
  have ed: "error d" using d by (rule err)
  define impl1 :: "('w, 'e, 'u word) CompactFstImpl" where
    "impl1 = SetPropertiesMask kError kError (CompactFstImpl_new c d)"
  have p1: "properties impl1 AND kError = kError"
    by (simp add: impl1_def SetPropertiesMask_def kError_sticky(1))
  have d1: "data impl1 = d"
    by (simp add: impl1_def SetPropertiesMask_def CompactFstImpl_new_def)
  define impl :: "('w, 'e, 'u word) CompactFstImpl" where
    "impl = (if copy_properties AND kError \<noteq> 0 \<or> \<not> Compatible c f
             then SetPropertiesMask kError kError impl1
             else SetProperties (copy_properties OR kStaticProperties) impl1)"
  have init: "Init_fst False c z f copy_properties = Some impl"
    using ed
    by (simp add: Init_fst_def d Let_def impl_def impl1_def CompactFstImpl_new_def FSTERROR_def)
  have di: "data impl = d"
    by (simp add: impl_def d1 SetPropertiesMask_def SetProperties_def)
  have pi: "Properties impl kError = kError"
    unfolding impl_def using p1
    by (simp add: Properties_def SetPropertiesMask_def SetProperties_def kError_sticky)
  have none: "(DefaultCompactStore_fst True c z f :: ('e, 'u word) DefaultCompactStore option) = None"
  proof (cases "DefaultCompactStore_fst True c z f :: ('e, 'u word) DefaultCompactStore option")
    case None
    then show ?thesis .
  next
    case (Some d')
    then have "error d'" by (rule err)
    moreover have "\<not> error d'"
      using Some unfolding DefaultCompactStore_fst_def Let_def FSTERROR_def
      by (auto simp add: case_prod_beta DefaultCompactStore_default_def split: if_splits)
    ultimately show ?thesis by blast
  qed
  have none': "(Init_fst True c z f copy_properties :: ('w, 'e, 'u word) CompactFstImpl option) = None"
    by (simp add: Init_fst_def none)
  show ?thesis
    using d ed init di pi none none' by blast
qed

theorem superfinal_first_witness:
  "Size (AcceptorCompactor :: (nat, (Label \<times> nat) \<times> StateId) Compactor) = -1
   \<and> fst_Final example_acceptor 0 \<noteq> 0
   \<and> DefaultCompactStore_fst True AcceptorCompactor 0 example_acceptor
        \<noteq> (None :: ((Label \<times> nat) \<times> StateId, 8 word) DefaultCompactStore option)
   \<and> Compacts (the (DefaultCompactStore_fst True AcceptorCompactor 0 example_acceptor)
                :: ((Label \<times> nat) \<times> StateId, 8 word) DefaultCompactStore) 0
       = Some ((-1, 7), -1)
   \<and> Compacts (the (DefaultCompactStore_fst True AcceptorCompactor 0 example_acceptor)
                :: ((Label \<times> nat) \<times> StateId, 8 word) DefaultCompactStore) 1
       = Some ((5, 1), 1)
   \<and> Compacts (the (DefaultCompactStore_fst True AcceptorCompactor 0 example_acceptor)
                :: ((Label \<times> nat) \<times> StateId, 8 word) DefaultCompactStore) 2
       = Some ((6, 2), 0)
   \<and> States (the (DefaultCompactStore_fst True AcceptorCompactor 0 example_acceptor)
                :: ((Label \<times> nat) \<times> StateId, 8 word) DefaultCompactStore) 0 = Some 0
   \<and> States (the (DefaultCompactStore_fst True AcceptorCompactor 0 example_acceptor)
                :: ((Label \<times> nat) \<times> StateId, 8 word) DefaultCompactStore) 1 = Some 3
   \<and> Size (StringCompactor (1::nat)) = 1
   \<and> num_transitions 0 example_string 0 = 1 \<and> num_transitions 0 example_string 1 = 1
   \<and> num_transitions 0 example_string 2 = 1
   \<and> fst_Final example_string 2 \<noteq> 0
   \<and> DefaultCompactStore_fst True (StringCompactor 1) 0 example_string
        \<noteq> (None :: (Label, 32 word) DefaultCompactStore option)
   \<and> \<not> error (the (DefaultCompactStore_fst True (StringCompactor 1) 0 example_string)
                :: (Label, 32 word) DefaultCompactStore)
   \<and> Compacts (the (DefaultCompactStore_fst True (StringCompactor 1) 0 example_string)
                :: (Label, 32 word) DefaultCompactStore) 2 = Some (-1)
   \<and> Size (example_compactor2 :: (nat, (Label \<times> nat) \<times> StateId) Compactor) = 2
   \<and> num_transitions 0 example_pairs 0 = 2 \<and> num_transitions 0 example_pairs 1 = 2
   \<and> fst_Final example_pairs 0 \<noteq> 0
   \<and> DefaultCompactStore_fst True example_compactor2 0 example_pairs
        \<noteq> (None :: ((Label \<times> nat) \<times> StateId, 32 word) DefaultCompactStore option)
   \<and> \<not> error (the (DefaultCompactStore_fst True example_compactor2 0 example_pairs)
                :: ((Label \<times> nat) \<times> StateId, 32 word) DefaultCompactStore)
   \<and> Compacts (the (DefaultCompactStore_fst True example_compactor2 0 example_pairs)
                :: ((Label \<times> nat) \<times> StateId, 32 word) DefaultCompactStore) 0
       = Some ((-1, 7), -1)
   \<and> Compacts (the (DefaultCompactStore_fst True example_compactor2 0 example_pairs)
                :: ((Label \<times> nat) \<times> StateId, 32 word) DefaultCompactStore) 1
       = Some ((5, 1), 1)"
proof -
  have sz: "Size (AcceptorCompactor :: (nat, (Label \<times> nat) \<times> StateId) Compactor) = -1"
    by (simp add: AcceptorCompactor_def)
  have fitA: "Size (AcceptorCompactor :: (nat, (Label \<times> nat) \<times> StateId) Compactor) = -1 \<or>
      (\<forall>q < length (fst_states example_acceptor).
         int (num_transitions 0 example_acceptor q)
           = Size (AcceptorCompactor :: (nat, (Label \<times> nat) \<times> StateId) Compactor))"
    using sz by blast
  have sA: "0 < length (fst_states example_acceptor)" by (simp add: example_acceptor_def)
  have finA: "fst_Final example_acceptor 0 \<noteq> 0"
    by (simp add: example_acceptor_def fst_Final_def)
  have off: "state_offset 0 f 0 = 0" for f :: "nat Fst" by (simp add: state_offset_def)
  have arcs: "fst_Arcs example_acceptor 0 = [Arc 5 5 1 1, Arc 6 6 2 0]"
    by (simp add: example_acceptor_def fst_Arcs_def)
  have fin: "fst_Final example_acceptor 0 = 7"
    by (simp add: example_acceptor_def fst_Final_def)
  have cmp: "Compact (AcceptorCompactor :: (nat, (Label \<times> nat) \<times> StateId) Compactor) q a =
               ((ilabel a, weight a), nextstate a)" for q a
    by (simp add: AcceptorCompactor_def)
  obtain dA :: "((Label \<times> nat) \<times> StateId, 8 word) DefaultCompactStore" where
    bA: "DefaultCompactStore_fst True AcceptorCompactor 0 example_acceptor = Some dA"
    and A0: "Compacts dA (state_offset 0 example_acceptor 0) =
      Some (Compact AcceptorCompactor (int 0)
             (Arc kNoLabel kNoLabel (fst_Final example_acceptor 0) kNoStateId))"
    and Arest: "\<forall>j<length (fst_Arcs example_acceptor 0).
      Compacts dA (state_offset 0 example_acceptor 0 + 1 + j) =
        Some (Compact AcceptorCompactor (int 0) (fst_Arcs example_acceptor 0 ! j))"
    and Ast: "Size (AcceptorCompactor :: (nat, (Label \<times> nat) \<times> StateId) Compactor) = -1 \<longrightarrow>
       States dA (int 0) = Some (word_of_nat (state_offset 0 example_acceptor 0))
       \<and> States dA (int 0 + 1) =
           Some (word_of_nat (state_offset 0 example_acceptor 0 + 1
                   + length (fst_Arcs example_acceptor 0)))"
    using superfinal_first [OF fitA sA finA, where ?'u = 8 and fst_error_fatal = True] by blast
  have tA: "the (DefaultCompactStore_fst True AcceptorCompactor 0 example_acceptor) = dA"
    unfolding bA by simp
  have nA: "DefaultCompactStore_fst True AcceptorCompactor 0 example_acceptor
        \<noteq> (None :: ((Label \<times> nat) \<times> StateId, 8 word) DefaultCompactStore option)"
    unfolding bA by simp
  have c0: "Compacts dA 0 = Some ((-1, 7), -1)"
    using A0 by (simp add: off fin cmp Arc_def kNoLabel_def kNoStateId_def)
  have c1: "Compacts dA 1 = Some ((5, 1), 1)"
    using Arest [rule_format, of 0] by (simp add: off arcs cmp Arc_def)
  have c2: "Compacts dA 2 = Some ((6, 2), 0)"
    using Arest [rule_format, of 1] by (simp add: off arcs cmp Arc_def numeral_2_eq_2)
  have s0: "States dA 0 = Some 0"
    using Ast sz by (simp add: off)
  have s1: "States dA 1 = Some 3"
    using Ast sz by (simp add: off arcs)
  have szS: "Size (StringCompactor w) = 1" for w :: nat by (simp add: StringCompactor_def)
  have ntS: "num_transitions 0 example_string 0 = 1" "num_transitions 0 example_string 1 = 1"
    "num_transitions 0 example_string 2 = 1"
    by (simp_all add: num_transitions_def example_string_def fst_Final_def fst_Arcs_def)
  have lenS: "length (fst_states example_string) = 3" by (simp add: example_string_def)
  have allS: "\<forall>q < length (fst_states example_string).
         int (num_transitions 0 example_string q) = Size (StringCompactor (1::nat))"
    unfolding lenS szS using ntS by (simp add: numeral_3_eq_3 numeral_2_eq_2 less_Suc_eq)
  then have fitS: "Size (StringCompactor (1::nat)) = -1 \<or>
      (\<forall>q < length (fst_states example_string).
         int (num_transitions 0 example_string q) = Size (StringCompactor (1::nat)))"
    by (rule disjI2)
  have sS: "2 < length (fst_states example_string)" by (simp add: lenS)
  have finS: "fst_Final example_string 2 \<noteq> 0"
    by (simp add: example_string_def fst_Final_def)
  obtain dS :: "(Label, 32 word) DefaultCompactStore" where
    bS: "DefaultCompactStore_fst True (StringCompactor 1) 0 example_string = Some dS"
    and eS: "\<not> error dS"
    and S0: "Compacts dS (state_offset 0 example_string 2) =
      Some (Compact (StringCompactor 1) (int 2)
             (Arc kNoLabel kNoLabel (fst_Final example_string 2) kNoStateId))"
    and Sfix: "Size (StringCompactor (1::nat)) \<noteq> -1 \<longrightarrow>
       state_offset 0 example_string 2 = 2 * nat (Size (StringCompactor (1::nat)))
       \<and> 1 + length (fst_Arcs example_string 2) = nat (Size (StringCompactor (1::nat)))"
    using superfinal_first [OF fitS sS finS, where ?'u = 32 and fst_error_fatal = True] by blast
  have offS: "state_offset 0 example_string 2 = 2"
    using Sfix by (simp add: szS)
  have tS: "the (DefaultCompactStore_fst True (StringCompactor 1) 0 example_string) = dS"
    unfolding bS by simp
  have nS: "DefaultCompactStore_fst True (StringCompactor 1) 0 example_string
        \<noteq> (None :: (Label, 32 word) DefaultCompactStore option)"
    unfolding bS by simp
  have cS: "Compacts dS 2 = Some (-1)"
    using S0 unfolding offS by (simp add: StringCompactor_def Arc_def kNoLabel_def)
  have szP: "Size (example_compactor2 :: (nat, (Label \<times> nat) \<times> StateId) Compactor) = 2"
    by (simp add: example_compactor2_def)
  have cmpP: "Compact (example_compactor2 :: (nat, (Label \<times> nat) \<times> StateId) Compactor) q a =
               ((ilabel a, weight a), nextstate a)" for q a
    by (simp add: example_compactor2_def AcceptorCompactor_def)
  have ntP: "num_transitions 0 example_pairs 0 = 2" "num_transitions 0 example_pairs 1 = 2"
    by (simp_all add: num_transitions_def example_pairs_def fst_Final_def fst_Arcs_def)
  have lenP: "length (fst_states example_pairs) = 2" by (simp add: example_pairs_def)
  have allP: "\<forall>q < length (fst_states example_pairs).
         int (num_transitions 0 example_pairs q)
           = Size (example_compactor2 :: (nat, (Label \<times> nat) \<times> StateId) Compactor)"
    unfolding lenP szP using ntP by (simp add: numeral_2_eq_2 less_Suc_eq)
  then have fitP: "Size (example_compactor2 :: (nat, (Label \<times> nat) \<times> StateId) Compactor) = -1 \<or>
      (\<forall>q < length (fst_states example_pairs).
         int (num_transitions 0 example_pairs q)
           = Size (example_compactor2 :: (nat, (Label \<times> nat) \<times> StateId) Compactor))"
    by (rule disjI2)
  have sP: "0 < length (fst_states example_pairs)" by (simp add: lenP)
  have finP: "fst_Final example_pairs 0 \<noteq> 0"
    by (simp add: example_pairs_def fst_Final_def)
  have finP7: "fst_Final example_pairs 0 = 7"
    by (simp add: example_pairs_def fst_Final_def)
  have arcsP: "fst_Arcs example_pairs 0 = [Arc 5 5 1 1]"
    by (simp add: example_pairs_def fst_Arcs_def)
  obtain dP :: "((Label \<times> nat) \<times> StateId, 32 word) DefaultCompactStore" where
    bP: "DefaultCompactStore_fst True example_compactor2 0 example_pairs = Some dP"
    and eP: "\<not> error dP"
    and P0: "Compacts dP (state_offset 0 example_pairs 0) =
      Some (Compact example_compactor2 (int 0)
             (Arc kNoLabel kNoLabel (fst_Final example_pairs 0) kNoStateId))"
    and Prest: "\<forall>j<length (fst_Arcs example_pairs 0).
      Compacts dP (state_offset 0 example_pairs 0 + 1 + j) =
        Some (Compact example_compactor2 (int 0) (fst_Arcs example_pairs 0 ! j))"
    using superfinal_first [OF fitP sP finP, where ?'u = 32 and fst_error_fatal = True] by blast
  have tP: "the (DefaultCompactStore_fst True example_compactor2 0 example_pairs) = dP"
    unfolding bP by simp
  have nP: "DefaultCompactStore_fst True example_compactor2 0 example_pairs
        \<noteq> (None :: ((Label \<times> nat) \<times> StateId, 32 word) DefaultCompactStore option)"
    unfolding bP by simp
  have p0: "Compacts dP 0 = Some ((-1, 7), -1)"
    using P0 by (simp add: off finP7 cmpP Arc_def kNoLabel_def kNoStateId_def)
  have p1: "Compacts dP 1 = Some ((5, 1), 1)"
    using Prest [rule_format, of 0] by (simp add: off arcsP cmpP Arc_def)
  show ?thesis
    unfolding tA tS tP
    by (intro conjI sz finA nA c0 c1 c2 s0 s1 szS ntS finS nS eS cS szP ntP finP nP eP p0 p1)
qed

theorem fixed_out_degree_error_witness:
  "0 < Size (StringCompactor (1::nat))
   \<and> 0 < length (fst_states example_acceptor)
   \<and> int (num_transitions 0 example_acceptor 0) \<noteq> Size (StringCompactor (1::nat))
   \<and> map_option error (DefaultCompactStore_fst False (StringCompactor 1) 0 example_acceptor
              :: (Label, 32 word) DefaultCompactStore option) = Some True
   \<and> Init_fst False (StringCompactor 1) 0 example_acceptor kAcceptor
       \<noteq> (None :: (nat, Label, 32 word) CompactFstImpl option)
   \<and> Properties (the (Init_fst False (StringCompactor 1) 0 example_acceptor kAcceptor)
                  :: (nat, Label, 32 word) CompactFstImpl) kError = kError
   \<and> kError \<noteq> 0
   \<and> (DefaultCompactStore_fst True (StringCompactor 1) 0 example_acceptor
              :: (Label, 32 word) DefaultCompactStore option) = None
   \<and> (Init_fst True (StringCompactor 1) 0 example_acceptor kAcceptor
              :: (nat, Label, 32 word) CompactFstImpl option) = None"
proof -
  have h1: "0 < Size (StringCompactor (1::nat))"
    by (simp add: StringCompactor_def)
  have h2: "0 < length (fst_states example_acceptor)"
    by (simp add: example_acceptor_def)
  have h3: "int (num_transitions 0 example_acceptor 0) \<noteq> Size (StringCompactor (1::nat))"
    by (simp add: num_transitions_def example_acceptor_def fst_Final_def fst_Arcs_def
        StringCompactor_def)
  have k: "kError \<noteq> 0" by (simp add: kError_def)
  note T = fixed_out_degree_error [OF h1 h2 h3, where ?'u = 32 and copy_properties = kAcceptor]
  from T obtain d :: "(Label, 32 word) DefaultCompactStore" where
    d: "DefaultCompactStore_fst False (StringCompactor 1) 0 example_acceptor = Some d" "error d"
    by blast
  from T obtain impl :: "(nat, Label, 32 word) CompactFstImpl" where
    i: "Init_fst False (StringCompactor 1) 0 example_acceptor kAcceptor = Some impl"
       "Properties impl kError = kError"
    by blast
  have 1: "map_option error (DefaultCompactStore_fst False (StringCompactor 1) 0 example_acceptor
              :: (Label, 32 word) DefaultCompactStore option) = Some True"
    unfolding d(1) using d(2) by simp
  have 2: "Init_fst False (StringCompactor 1) 0 example_acceptor kAcceptor
       \<noteq> (None :: (nat, Label, 32 word) CompactFstImpl option)"
    unfolding i(1) by simp
  have 3: "Properties (the (Init_fst False (StringCompactor 1) 0 example_acceptor kAcceptor)
                  :: (nat, Label, 32 word) CompactFstImpl) kError = kError"
    unfolding i(1) option.sel by (rule i(2))
  from T have 4: "(DefaultCompactStore_fst True (StringCompactor 1) 0 example_acceptor
              :: (Label, 32 word) DefaultCompactStore option) = None"
    by blast
  from T have 5: "(Init_fst True (StringCompactor 1) 0 example_acceptor kAcceptor
              :: (nat, Label, 32 word) CompactFstImpl option) = None"
    by blast
  show ?thesis
    by (intro conjI h1 h2 h3 1 2 3 k 4 5)
qed

text \<open>
  C4 as the claim words it has the store flagged and the compact FST marked whenever the
  input does not fit. With \<open>fst_error_fatal\<close> at its default the string compactor
  (\<open>Size() = 1\<close>) and the acceptor above, whose state 0 has three transitions, give
  neither a store nor a compact FST: the process has terminated.
\<close>

theorem fixed_out_degree_error_counterexample:
  "\<not> (map_option error
         (DefaultCompactStore_fst fst_error_fatal_default (StringCompactor (1::nat)) 0
            example_acceptor :: (Label, 32 word) DefaultCompactStore option) = Some True)
   \<and> (Init_fst fst_error_fatal_default (StringCompactor (1::nat)) 0 example_acceptor kAcceptor
         :: (nat, Label, 32 word) CompactFstImpl option) = None
   \<and> 0 < Size (StringCompactor (1::nat))
   \<and> int (num_transitions 0 example_acceptor 0) \<noteq> Size (StringCompactor (1::nat))"
proof -
  have n: "(DefaultCompactStore_fst True (StringCompactor (1::nat)) 0
            example_acceptor :: (Label, 32 word) DefaultCompactStore option) = None"
    by (simp add: DefaultCompactStore_fst_def Let_def FSTERROR_def StringCompactor_def
        example_acceptor_def)
  have h1: "0 < Size (StringCompactor (1::nat))"
    by (simp add: StringCompactor_def)
  have h3: "int (num_transitions 0 example_acceptor 0) \<noteq> Size (StringCompactor (1::nat))"
    by (simp add: num_transitions_def example_acceptor_def fst_Final_def fst_Arcs_def
        StringCompactor_def)
  show ?thesis
    unfolding fst_error_fatal_default_def Init_fst_def n using h1 h3 by simp
qed

subsection \<open>The store built from a sequence of elements\<close>

lemma copy_elements_index:
  "fst (snd (copy_elements c xs (a, i, na))) = i + length xs"
  by (induction xs arbitrary: a i na) simp_all

lemma copy_elements_length:
  "length (fst (copy_elements c xs (a, i, na))) = length a"
  by (induction xs arbitrary: a i na) simp_all

lemma copy_elements_array:
  "i + length xs \<le> length a \<Longrightarrow>
   fst (copy_elements c xs (a, i, na)) = take i a @ map Some xs @ drop (i + length xs) a"
proof (induction xs arbitrary: a i na)
  case Nil
  then show ?case by simp
next
  case (Cons x xs)
  have len: "i < length a" using Cons.prems by simp
  define na' where
    "na' = (if ilabel (Expand c (int i) x kArcValueFlags) \<noteq> kNoLabel then Suc na else na)"
  have "fst (copy_elements c (x # xs) (a, i, na)) =
        fst (copy_elements c xs (a[i := Some x], Suc i, na'))"
    by (simp add: na'_def)
  also have "\<dots> = take (Suc i) (a[i := Some x]) @ map Some xs
                    @ drop (Suc i + length xs) (a[i := Some x])"
    using Cons.prems by (intro Cons.IH) simp
  also have "take (Suc i) (a[i := Some x]) = take i a @ [Some x]"
    using len by (simp add: take_Suc_conv_app_nth)
  also have "drop (Suc i + length xs) (a[i := Some x]) = drop (Suc i + length xs) a"
    by simp
  finally show ?case by simp
qed

text \<open>
  C6, as the code has it. For a compactor with \<open>Size() = 1\<close> and a non-empty sequence
  of elements, the store is extended by one implicit superfinal element, compacted from
  \<open>Arc(kNoLabel, kNoLabel, One, kNoStateId)\<close> and placed after the given elements,
  exactly when the last element expands to an arc whose input label is not \<open>kNoLabel\<close>
  (so also when that label is 0, the epsilon); when the last element is itself a
  superfinal element the store holds the given elements only.
\<close>

theorem implicit_superfinal:
  fixes c :: "('w, 'e) Compactor"
  assumes sz: "Size c = 1" and ne: "xs \<noteq> []"
  shows "\<exists>d :: ('e, 'u::len word) DefaultCompactStore.
           DefaultCompactStore_iter fst_error_fatal c wZero wOne xs = Some d
         \<and> (ilabel (Expand c (int (length xs - 1)) (last xs) kArcValueFlags) \<noteq> kNoLabel \<longrightarrow>
              compacts d
                = map Some xs
                  @ [Some (Compact c (int (length xs)) (Arc kNoLabel kNoLabel wOne kNoStateId))]
            \<and> ncompacts d = length xs + 1
            \<and> nstates d = length xs + 1)
         \<and> (ilabel (Expand c (int (length xs - 1)) (last xs) kArcValueFlags) = kNoLabel \<longrightarrow>
              compacts d = map Some xs
            \<and> ncompacts d = length xs
            \<and> nstates d = length xs)
         \<and> \<not> error d"
proof -
  define nc where "nc = iter_ncompacts c xs"
  define r where "r = copy_elements c xs (replicate nc None, 0, 0)"
  define D :: "('e, 'u word) DefaultCompactStore" where
    "D = DefaultCompactStore_default
       \<lparr>compacts :=
          (if length xs < nc
           then (fst r)[length xs := Some (Compact c (int (length xs))
                                            (Arc kNoLabel kNoLabel wOne kNoStateId))]
           else fst r),
        nstates := nc, ncompacts := nc, narcs := snd (snd r), start := 0\<rparr>"
  have lastx: "xs ! (length xs - Suc 0) = last xs"
    using ne by (simp add: last_conv_nth)
  have ncv: "nc = (if ilabel (Expand c (int (length xs - 1)) (last xs) kArcValueFlags) \<noteq> kNoLabel
                   then length xs + 1 else length xs)"
    using ne by (simp add: nc_def iter_ncompacts_def sz Let_def lastx)
  have pos: "nc \<noteq> 0" using ne by (simp add: ncv)
  have cap: "0 + length xs \<le> length (replicate nc (None :: 'e option))"
    by (simp add: ncv)
  have ri: "fst (snd r) = length xs"
    by (simp add: r_def copy_elements_index)
  have ra: "fst r = map Some xs @ drop (length xs) (replicate nc None)"
    unfolding r_def using copy_elements_array [OF cap, of c 0] by simp
  have "(iter_fixed fst_error_fatal c wOne xs nc :: ('e, 'u word) DefaultCompactStore option) =
     Some (DefaultCompactStore_default
       \<lparr>compacts :=
          (if fst (snd r) < nc
           then (fst r)[fst (snd r) := Some (Compact c (int (fst (snd r)))
                                            (Arc kNoLabel kNoLabel wOne kNoStateId))]
           else fst r),
        nstates := nc, ncompacts := nc, narcs := snd (snd r), start := 0\<rparr>)"
    using pos by (simp add: iter_fixed_def sz r_def [symmetric] case_prod_beta)
  then have store:
    "(DefaultCompactStore_iter fst_error_fatal c wZero wOne xs
        :: ('e, 'u word) DefaultCompactStore option) = Some D"
    by (simp add: DefaultCompactStore_iter_def sz nc_def [symmetric] ri D_def)
  have facts: "(ilabel (Expand c (int (length xs - 1)) (last xs) kArcValueFlags) \<noteq> kNoLabel \<longrightarrow>
              compacts D
                = map Some xs
                  @ [Some (Compact c (int (length xs)) (Arc kNoLabel kNoLabel wOne kNoStateId))]
            \<and> ncompacts D = length xs + 1
            \<and> nstates D = length xs + 1)
         \<and> (ilabel (Expand c (int (length xs - 1)) (last xs) kArcValueFlags) = kNoLabel \<longrightarrow>
              compacts D = map Some xs
            \<and> ncompacts D = length xs
            \<and> nstates D = length xs)
         \<and> \<not> error D"
  proof (cases "ilabel (Expand c (int (length xs - 1)) (last xs) kArcValueFlags) \<noteq> kNoLabel")
    case True
    then have n: "nc = length xs + 1" by (simp add: ncv)
    have "drop (length xs) (replicate nc (None :: 'e option)) =
            replicate (nc - length xs) None"
      by (rule drop_replicate)
    then have "drop (length xs) (replicate nc (None :: 'e option)) = [None]"
      unfolding n by simp
    then have "(fst r)[length xs := Some v] = map Some xs @ [Some v]" for v
      by (simp add: ra list_update_append)
    then show ?thesis
      using True by (simp add: D_def n DefaultCompactStore_default_def)
  next
    case False
    then have n: "nc = length xs" by (simp add: ncv)
    show ?thesis
      using False by (simp add: D_def n ra DefaultCompactStore_default_def)
  qed
  show ?thesis
    by (rule exI [of _ D]) (rule conjI [OF store facts])
qed

theorem implicit_superfinal_witness:
  "Size (StringCompactor (1::nat)) = 1 \<and> [5, 0] \<noteq> ([] :: Label list)
   \<and> ilabel (Expand (StringCompactor (1::nat)) (int (length [5, 0 :: Label] - 1))
               (last [5, 0]) kArcValueFlags) \<noteq> kNoLabel
   \<and> map_option compacts
        (DefaultCompactStore_iter True (StringCompactor (1::nat)) 0 1 [5, 0]
           :: (Label, 32 word) DefaultCompactStore option)
       = Some [Some 5, Some 0, Some (-1)]
   \<and> map_option error
        (DefaultCompactStore_iter True (StringCompactor (1::nat)) 0 1 [5, 0]
           :: (Label, 32 word) DefaultCompactStore option)
       = Some False"
proof -
  have h1: "Size (StringCompactor (1::nat)) = 1" by (simp add: StringCompactor_def)
  have h2: "[5, 0] \<noteq> ([] :: Label list)" by simp
  have h3: "ilabel (Expand (StringCompactor (1::nat)) (int (length [5, 0 :: Label] - 1))
               (last [5, 0]) kArcValueFlags) \<noteq> kNoLabel"
    by (simp add: StringCompactor_def Arc_def kNoLabel_def)
  have cmp: "Compact (StringCompactor (1::nat)) q (Arc kNoLabel kNoLabel w kNoStateId) = -1"
    for q w
    by (simp add: StringCompactor_def Arc_def kNoLabel_def)
  obtain d :: "(Label, 32 word) DefaultCompactStore" where
    d: "DefaultCompactStore_iter True (StringCompactor (1::nat)) 0 1 [5, 0] = Some d"
    and T: "ilabel (Expand (StringCompactor (1::nat)) (int (length [5, 0 :: Label] - 1))
               (last [5, 0]) kArcValueFlags) \<noteq> kNoLabel \<longrightarrow>
            compacts d = map Some [5, 0]
              @ [Some (Compact (StringCompactor (1::nat)) (int (length [5, 0 :: Label]))
                        (Arc kNoLabel kNoLabel 1 kNoStateId))]
            \<and> ncompacts d = length [5, 0 :: Label] + 1
            \<and> nstates d = length [5, 0 :: Label] + 1"
    and e: "\<not> error d"
    using implicit_superfinal [OF h1 h2, of True 0 1, where ?'u = 32] by blast
  from T h3 have "compacts d = map Some [5, 0]
              @ [Some (Compact (StringCompactor (1::nat)) (int (length [5, 0 :: Label]))
                        (Arc kNoLabel kNoLabel 1 kNoStateId))]"
    by blast
  then have c: "compacts d = [Some 5, Some 0, Some (-1)]"
    unfolding cmp by simp
  have 1: "map_option compacts
        (DefaultCompactStore_iter True (StringCompactor (1::nat)) 0 1 [5, 0]
           :: (Label, 32 word) DefaultCompactStore option)
       = Some [Some 5, Some 0, Some (-1)]"
    unfolding d using c by simp
  have 2: "map_option error
        (DefaultCompactStore_iter True (StringCompactor (1::nat)) 0 1 [5, 0]
           :: (Label, 32 word) DefaultCompactStore option)
       = Some False"
    unfolding d using e by simp
  show ?thesis by (intro conjI h1 h2 h3 1 2)
qed

text \<open>
  C6 as the claim words it asks for a last arc that is not an epsilon: an input label
  other than 0. The one-element sequence \<open>[kNoLabel]\<close> ends with such an element (its
  label is \<open>-1\<close>), and the store is not extended.
\<close>

theorem implicit_superfinal_counterexample:
  "\<not> (ilabel (Expand (StringCompactor (1::nat)) (int (length [kNoLabel] - 1))
                (last [kNoLabel]) kArcValueFlags) \<noteq> 0
       \<longrightarrow> map_option compacts
             (DefaultCompactStore_iter fst_error_fatal_default (StringCompactor (1::nat)) 0 1
                [kNoLabel] :: (Label, 32 word) DefaultCompactStore option)
            = Some (map Some [kNoLabel]
                    @ [Some (Compact (StringCompactor (1::nat)) (int (length [kNoLabel]))
                              (Arc kNoLabel kNoLabel 1 kNoStateId))]))"
  by (simp add: DefaultCompactStore_iter_def iter_fixed_def iter_ncompacts_def
      StringCompactor_def Arc_def kNoLabel_def Let_def DefaultCompactStore_default_def)

subsection \<open>The arc iterator\<close>

lemma ArcIterator_arcs_range:
  assumes "p \<le> n" and "b + n \<le> length arr"
    and "\<forall>x \<in> set (take (n - p) (drop (b + p) arr)). x \<noteq> None"
  shows "ArcIterator_arcs
           \<lparr>it_compactor = c, it_state = st, it_array = arr, it_compacts = Some b,
            it_pos = p, it_num_arcs = n, it_flags = fl\<rparr> =
         Some (map (\<lambda>e. Expand c st e fl) (map the (take (n - p) (drop (b + p) arr))))"
  using assms
proof (induction "n - p" arbitrary: p)
  case 0
  then have "n \<le> p" by simp
  then show ?case
    by (subst ArcIterator_arcs.simps) (simp add: Done_def)
next
  case (Suc k)
  then have lt: "p < n" and k: "k = n - Suc p" by simp_all
  have inr: "b + p < length arr" using lt Suc.prems(2) by simp
  have split: "take (n - p) (drop (b + p) arr) =
               arr ! (b + p) # take (n - Suc p) (drop (b + Suc p) arr)"
  proof -
    have "n - p = Suc (n - Suc p)" using lt by simp
    moreover have "drop (b + p) arr = arr ! (b + p) # drop (b + Suc p) arr"
      using inr by (simp add: Cons_nth_drop_Suc)
    ultimately show ?thesis by simp
  qed
  have some: "arr ! (b + p) \<noteq> None"
    using Suc.prems(3) unfolding split by simp
  then obtain e where e: "arr ! (b + p) = Some e" by blast
  have rest: "\<forall>x \<in> set (take (n - Suc p) (drop (b + Suc p) arr)). x \<noteq> None"
    using Suc.prems(3) unfolding split by simp
  have IH: "ArcIterator_arcs
           \<lparr>it_compactor = c, it_state = st, it_array = arr, it_compacts = Some b,
            it_pos = Suc p, it_num_arcs = n, it_flags = fl\<rparr> =
         Some (map (\<lambda>e. Expand c st e fl)
                 (map the (take (n - Suc p) (drop (b + Suc p) arr))))"
    using lt Suc.prems(2) rest by (intro Suc.hyps(1) k) simp_all
  let ?it = "\<lparr>it_compactor = c, it_state = st, it_array = arr, it_compacts = Some b,
            it_pos = p, it_num_arcs = n, it_flags = fl\<rparr>"
  have nd: "\<not> Done ?it" using lt by (simp add: Done_def)
  have v: "Value ?it = Some (Expand c st e fl)"
    using inr by (simp add: Value_def e)
  have nx: "Next ?it = \<lparr>it_compactor = c, it_state = st, it_array = arr, it_compacts = Some b,
            it_pos = Suc p, it_num_arcs = n, it_flags = fl\<rparr>"
    by (simp add: Next_def)
  have "ArcIterator_arcs ?it = map_option ((#) (Expand c st e fl)) (ArcIterator_arcs (Next ?it))"
    by (subst ArcIterator_arcs.simps) (simp add: nd v)
  also have "\<dots> = Some (Expand c st e fl #
                 map (\<lambda>e. Expand c st e fl)
                   (map the (take (n - Suc p) (drop (b + Suc p) arr))))"
    unfolding nx IH by simp
  also have "\<dots> = Some (map (\<lambda>e. Expand c st e fl)
                         (map the (take (n - p) (drop (b + p) arr))))"
    unfolding split by (simp add: e)
  finally show ?case .
qed

lemma ArcIterator_arcs_none:
  "it_num_arcs it \<le> it_pos it \<Longrightarrow> ArcIterator_arcs it = Some []"
  by (subst ArcIterator_arcs.simps) (simp add: Done_def)

lemma state_elements_SomeD:
  assumes "state_elements impl s = Some es"
  obtains off n where "state_range impl s = Some (off, n)"
    and "off + n \<le> length (compacts (data impl))"
    and "\<forall>x \<in> set (take n (drop off (compacts (data impl)))). x \<noteq> None"
    and "es = map the (take n (drop off (compacts (data impl))))"
  using assms
  by (auto simp: state_elements_def split: option.splits prod.splits if_splits)

lemma state_range_ctor:
  assumes "state_range impl s = Some (off, n)"
  shows "(if Size (compactor impl) = -1
          then (case States (data impl) s of
                  None \<Rightarrow> None
                | Some a \<Rightarrow>
                    (case States (data impl) (s + 1) of
                       None \<Rightarrow> None
                     | Some b \<Rightarrow> Some (unat a, size_t_sub (unat b) (unat a))))
          else if s < 0 then None
          else Some (nat (s * Size (compactor impl)), nat (Size (compactor impl))))
         = Some (off, n)"
proof (cases "Size (compactor impl) = -1")
  case True
  from assms True obtain a b where ab: "States (data impl) s = Some a"
    "States (data impl) (s + 1) = Some b" "a \<le> b" "off = unat a" "n = unat b - unat a"
    by (auto simp: state_range_def split: option.splits if_splits)
  have "unat a \<le> unat b" using ab(3) by (simp add: word_le_nat_alt)
  then have "size_t_sub (unat b) (unat a) = unat b - unat a"
    by (simp add: size_t_sub_def)
  then show ?thesis using True ab by simp
next
  case False
  with assms show ?thesis
    by (auto simp: state_range_def split: if_splits)
qed

text \<open>
  C5. For a state \<open>s\<close> whose range of compact elements \<open>es\<close> lies in the store, the
  arc iterator yields, whatever the cache holds, the expansions \<open>Expand(s, e)\<close> of the
  elements in their order, without the first element when that one expands to a
  superfinal transition; the number of arcs of the iterator is then one less than the
  length of the range.
\<close>

theorem ArcIterator_yields_expansions:
  fixes impl :: "('w, 'e, 'u::len word) CompactFstImpl"
  assumes "state_elements impl s = Some es"
  shows "arcs_of_state (impl\<lparr>cache_start := cs, cache_final := cf, cache_arcs := ca\<rparr>) s =
           Some (map (\<lambda>e. Expand (compactor impl) s e kArcValueFlags)
                  (if es \<noteq> [] \<and> ilabel (Expand (compactor impl) s (hd es) kArcILabelValue)
                                   = kNoStateId
                   then tl es else es))
       \<and> map_option it_num_arcs
           (ArcIterator_new (impl\<lparr>cache_start := cs, cache_final := cf, cache_arcs := ca\<rparr>) s) =
           Some (if es \<noteq> [] \<and> ilabel (Expand (compactor impl) s (hd es) kArcILabelValue)
                                   = kNoStateId
                 then length es - 1 else length es)"
proof -
  define impl' where "impl' = impl\<lparr>cache_start := cs, cache_final := cf, cache_arcs := ca\<rparr>"
  define c where "c = compactor impl"
  define arr where "arr = compacts (data impl)"
  have c': "compactor impl' = c" and d': "data impl' = data impl"
    by (simp_all add: impl'_def c_def)
  obtain off n where rg: "state_range impl s = Some (off, n)"
    and cap: "off + n \<le> length arr"
    and allsome: "\<forall>x \<in> set (take n (drop off arr)). x \<noteq> None"
    and es: "es = map the (take n (drop off arr))"
    using state_elements_SomeD [OF assms] unfolding arr_def by blast
  have len: "length es = n" using cap by (simp add: es)
  note ctor = state_range_ctor [OF rg, folded c_def]
  define it0 :: "('w, 'e) ArcIterator" where
    "it0 = \<lparr>it_compactor = c, it_state = s, it_array = arr, it_compacts = None,
            it_pos = 0, it_num_arcs = 0, it_flags = kArcValueFlags\<rparr>"
  have new: "ArcIterator_new impl' s =
     (if 0 < n
      then (case Compacts (data impl) off of
              None \<Rightarrow> None
            | Some e \<Rightarrow>
                if ilabel (Expand c s e kArcILabelValue) = kNoStateId
                then Some (it0\<lparr>it_compacts := Some (off + 1), it_num_arcs := n - 1\<rparr>)
                else Some (it0\<lparr>it_compacts := Some off, it_num_arcs := n\<rparr>))
      else Some (it0\<lparr>it_num_arcs := n\<rparr>))"
    unfolding ArcIterator_new_def Let_def c' d' ctor it0_def arr_def by simp
  show ?thesis
  proof (cases "n = 0")
    case True
    then have "es = []" by (simp add: es)
    moreover have "ArcIterator_new impl' s = Some (it0\<lparr>it_num_arcs := 0\<rparr>)"
      using True by (simp add: new)
    moreover have "ArcIterator_arcs (it0\<lparr>it_num_arcs := 0\<rparr>) = Some []"
      by (rule ArcIterator_arcs_none) (simp add: it0_def)
    ultimately show ?thesis
      by (simp add: arcs_of_state_def impl'_def [symmetric])
  next
    case False
    then have pos: "0 < n" by simp
    have inr: "off < length arr" using cap pos by simp
    have split: "take n (drop off arr) = arr ! off # take (n - 1) (drop (off + 1) arr)"
    proof -
      have "n = Suc (n - 1)" using pos by simp
      moreover have "drop off arr = arr ! off # drop (off + 1) arr"
        using inr by (simp add: Cons_nth_drop_Suc)
      ultimately show ?thesis by (metis take_Suc_Cons)
    qed
    have "arr ! off \<noteq> None" using allsome unfolding split by simp
    then obtain e where e: "arr ! off = Some e" by blast
    have rest: "\<forall>x \<in> set (take (n - 1) (drop (off + 1) arr)). x \<noteq> None"
      using allsome unfolding split by simp
    have es': "es = e # map the (take (n - 1) (drop (off + 1) arr))"
      unfolding es split by (simp add: e)
    have hd: "hd es = e" and nonempty: "es \<noteq> []"
      by (simp_all add: es')
    have ce: "Compacts (data impl) off = Some e"
      using inr by (simp add: Compacts_def arr_def [symmetric] e)
    show ?thesis
    proof (cases "ilabel (Expand c s e kArcILabelValue) = kNoStateId")
      case True
      have n1: "ArcIterator_new impl' s =
                  Some (it0\<lparr>it_compacts := Some (off + 1), it_num_arcs := n - 1\<rparr>)"
        using pos True by (simp add: new ce)
      have A: "ArcIterator_arcs
              \<lparr>it_compactor = c, it_state = s, it_array = arr, it_compacts = Some (off + 1),
               it_pos = 0, it_num_arcs = n - 1, it_flags = kArcValueFlags\<rparr> =
            Some (map (\<lambda>e. Expand c s e kArcValueFlags)
                    (map the (take (n - 1 - 0) (drop (off + 1 + 0) arr))))"
        using cap pos rest by (intro ArcIterator_arcs_range) simp_all
      have B: "it0\<lparr>it_compacts := Some (off + 1), it_num_arcs := n - 1\<rparr> =
              \<lparr>it_compactor = c, it_state = s, it_array = arr, it_compacts = Some (off + 1),
               it_pos = 0, it_num_arcs = n - 1, it_flags = kArcValueFlags\<rparr>"
        by (simp add: it0_def)
      have C: "tl es = map the (take (n - 1 - 0) (drop (off + 1 + 0) arr))"
        unfolding es' by simp
      have "ArcIterator_arcs (it0\<lparr>it_compacts := Some (off + 1), it_num_arcs := n - 1\<rparr>) =
            Some (map (\<lambda>e. Expand c s e kArcValueFlags) (tl es))"
        unfolding B C by (rule A)
      then have "ArcIterator_arcs (it0\<lparr>it_compacts := Some (off + 1), it_num_arcs := n - 1\<rparr>) =
            Some (map (\<lambda>e. Expand c s e kArcValueFlags) (tl es))" .
      moreover have "it_num_arcs (it0\<lparr>it_compacts := Some (off + 1), it_num_arcs := n - 1\<rparr>)
                       = length es - 1"
        by (simp add: len)
      ultimately show ?thesis
        using True
        by (simp add: arcs_of_state_def impl'_def [symmetric] n1 hd nonempty
            c_def [symmetric])
    next
      case False
      have n1: "ArcIterator_new impl' s =
                  Some (it0\<lparr>it_compacts := Some off, it_num_arcs := n\<rparr>)"
        using pos False by (simp add: new ce)
      have A: "ArcIterator_arcs
              \<lparr>it_compactor = c, it_state = s, it_array = arr, it_compacts = Some off,
               it_pos = 0, it_num_arcs = n, it_flags = kArcValueFlags\<rparr> =
            Some (map (\<lambda>e. Expand c s e kArcValueFlags)
                    (map the (take (n - 0) (drop (off + 0) arr))))"
        using cap allsome by (intro ArcIterator_arcs_range) simp_all
      have B: "it0\<lparr>it_compacts := Some off, it_num_arcs := n\<rparr> =
              \<lparr>it_compactor = c, it_state = s, it_array = arr, it_compacts = Some off,
               it_pos = 0, it_num_arcs = n, it_flags = kArcValueFlags\<rparr>"
        by (simp add: it0_def)
      have C: "map the (take n (drop off arr)) = map the (take (n - 0) (drop (off + 0) arr))"
        by simp
      have "ArcIterator_arcs (it0\<lparr>it_compacts := Some off, it_num_arcs := n\<rparr>) =
            Some (map (\<lambda>e. Expand c s e kArcValueFlags) (map the (take n (drop off arr))))"
        unfolding B C by (rule A)
      then have "ArcIterator_arcs (it0\<lparr>it_compacts := Some off, it_num_arcs := n\<rparr>) =
            Some (map (\<lambda>e. Expand c s e kArcValueFlags) es)"
        unfolding es .
      moreover have "it_num_arcs (it0\<lparr>it_compacts := Some off, it_num_arcs := n\<rparr>)
                       = length es"
        by (simp add: len)
      ultimately show ?thesis
        using False
        by (simp add: arcs_of_state_def impl'_def [symmetric] n1 hd nonempty
            c_def [symmetric])
    qed
  qed
qed

theorem ArcIterator_yields_expansions_witness:
  "Init_fst True AcceptorCompactor 0 example_acceptor kAcceptor
     \<noteq> (None :: (nat, (Label \<times> nat) \<times> StateId, 8 word) CompactFstImpl option)
   \<and> state_elements (the (Init_fst True AcceptorCompactor 0 example_acceptor kAcceptor)
                    :: (nat, (Label \<times> nat) \<times> StateId, 8 word) CompactFstImpl) 0 =
     Some [((-1, 7), -1), ((5, 1), 1), ((6, 2), 0)]
   \<and> arcs_of_state
       ((the (Init_fst True AcceptorCompactor 0 example_acceptor kAcceptor)
           :: (nat, (Label \<times> nat) \<times> StateId, 8 word) CompactFstImpl)
        \<lparr>cache_start := None, cache_final := Map.empty, cache_arcs := [0 \<mapsto> []]\<rparr>) 0 =
     Some [Arc 5 5 1 1, Arc 6 6 2 0]"
proof -
  let ?impl = "the (Init_fst True AcceptorCompactor 0 example_acceptor kAcceptor)
                 :: (nat, (Label \<times> nat) \<times> StateId, 8 word) CompactFstImpl"
  have h: "state_elements ?impl 0 = Some [((-1, 7), -1), ((5, 1), 1), ((6, 2), 0)]"
    by code_simp
  have sz: "Size (AcceptorCompactor :: (nat, (Label \<times> nat) \<times> StateId) Compactor) = -1"
    by (simp add: AcceptorCompactor_def)
  obtain d :: "((Label \<times> nat) \<times> StateId, 8 word) DefaultCompactStore" where
    d: "DefaultCompactStore_fst True AcceptorCompactor 0 example_acceptor = Some d"
    using DefaultCompactStore_fst_fit [of AcceptorCompactor example_acceptor 0 True, where ?'u = 8]
      sz by blast
  have ok: "\<not> (kAcceptor AND kError \<noteq> 0
              \<or> \<not> Compatible (AcceptorCompactor :: (nat, (Label \<times> nat) \<times> StateId) Compactor)
                    example_acceptor)"
    by (simp add: AcceptorCompactor_def Compatible_with_def example_acceptor_def
        kAcceptor_def kError_def)
  have init: "Init_fst True AcceptorCompactor 0 example_acceptor kAcceptor =
          Some (SetProperties (kAcceptor OR kStaticProperties)
                  (if error (data (CompactFstImpl_new AcceptorCompactor d))
                   then SetPropertiesMask kError kError (CompactFstImpl_new AcceptorCompactor d)
                   else CompactFstImpl_new AcceptorCompactor d))"
    unfolding Init_fst_def d option.case Let_def using ok by simp
  have n: "Init_fst True AcceptorCompactor 0 example_acceptor kAcceptor
     \<noteq> (None :: (nat, (Label \<times> nat) \<times> StateId, 8 word) CompactFstImpl option)"
    unfolding init by simp
  have c: "compactor ?impl = AcceptorCompactor"
    unfolding init option.sel
    by (simp add: SetProperties_def SetPropertiesMask_def CompactFstImpl_new_def)
  have ex: "Expand (AcceptorCompactor :: (nat, (Label \<times> nat) \<times> StateId) Compactor) q p f =
              Arc (fst (fst p)) (fst (fst p)) (snd (fst p)) (snd p)" for q p f
    by (simp add: AcceptorCompactor_def)
  note T = ArcIterator_yields_expansions
         [OF h, where cs = None and cf = Map.empty and ca = "[0 \<mapsto> []]"]
  have "arcs_of_state
          (?impl\<lparr>cache_start := None, cache_final := Map.empty, cache_arcs := [0 \<mapsto> []]\<rparr>) 0 =
        Some [Arc 5 5 1 1, Arc 6 6 2 0]"
    using T by (simp add: c ex Arc_def kNoStateId_def)
  with n h show ?thesis by blast
qed

subsection \<open>The empty string\<close>

text \<open>
  C1. A compact string FST built from the empty sequence of elements is a machine with
  one state: \<open>Init\<close> returns, whatever \<open>fst_error_fatal\<close> is, and the store has one
  state and one compact (the implicit superfinal element) and no error, \<open>NumStates\<close>
  is 1, the start state is 0, the final weight of state 0 is \<open>One\<close>, and state 0 has
  no arcs (\<open>NumArcs\<close> is 0 and the arc iterator yields nothing).
\<close>

theorem empty_string_fst:
  "\<exists>impl :: ('w, Label, 'u::len word) CompactFstImpl.
     Init_iter fst_error_fatal (StringCompactor wOne) wZero wOne [] = Some impl
   \<and> nstates (data impl) = 1
   \<and> \<not> error (data impl)
   \<and> compacts (data impl) = [Some kNoLabel]
   \<and> NumStates impl = 1
   \<and> fst (Start impl) = 0
   \<and> Final wZero impl 0 = Some wOne
   \<and> NumArcs impl 0 = Some 0
   \<and> arcs_of_state impl 0 = Some []"
proof -
  define D :: "(Label, 'u word) DefaultCompactStore" where
    "D = DefaultCompactStore_default
           \<lparr>compacts := [Some kNoLabel], nstates := 1, ncompacts := 1, narcs := 0, start := 0\<rparr>"
  define impl :: "('w, Label, 'u word) CompactFstImpl"
    where "impl = SetProperties (kStaticProperties OR (kString OR kAcceptor OR kUnweighted))
                       (CompactFstImpl_new (StringCompactor wOne) D)"
  have st: "DefaultCompactStore_iter fst_error_fatal (StringCompactor wOne) wZero wOne [] = Some D"
    by (simp add: DefaultCompactStore_iter_def iter_fixed_def iter_ncompacts_def
        StringCompactor_def Let_def D_def Arc_def)
  have cp: "CompactorProperties (StringCompactor wOne) = kString OR kAcceptor OR kUnweighted"
    by (simp add: StringCompactor_def)
  have noerrD: "\<not> error D"
    by (simp add: D_def DefaultCompactStore_default_def)
  have init: "Init_iter fst_error_fatal (StringCompactor wOne) wZero wOne [] = Some impl"
    using noerrD cp
    by (simp add: impl_def Init_iter_def st Let_def SetProperties_def CompactFstImpl_new_def)
  have d: "data impl = D"
    by (simp add: impl_def SetProperties_def CompactFstImpl_new_def)
  have c: "compactor impl = StringCompactor wOne"
    by (simp add: impl_def SetProperties_def CompactFstImpl_new_def)
  have cache: "cache_start impl = None" "cache_final impl = Map.empty"
    "cache_arcs impl = Map.empty"
    by (simp_all add: impl_def SetProperties_def CompactFstImpl_new_def)
  have noerr: "\<not> error (data impl)"
    by (simp add: d noerrD)
  have p: "properties impl = kStaticProperties OR (kString OR kAcceptor OR kUnweighted)"
    by (simp add: impl_def SetProperties_def CompactFstImpl_new_def)
  have pe: "Properties impl kError = 0"
    by (simp add: Properties_def p kStaticProperties_def kExpanded_def kString_def
        kAcceptor_def kUnweighted_def kError_def)
  have e0: "Compacts (data impl) 0 = Some kNoLabel"
    by (simp add: Compacts_def d D_def DefaultCompactStore_default_def)
  have ex: "Expand (StringCompactor wOne) 0 kNoLabel f = Arc kNoLabel kNoLabel wOne kNoStateId"
    for f
    by (simp add: StringCompactor_def)
  have exl: "ilabel (Expand (StringCompactor wOne) 0 kNoLabel f) = kNoLabel"
    "weight (Expand (StringCompactor wOne) 0 kNoLabel f) = wOne" for f
    by (simp_all add: ex Arc_def)
  have kk: "kNoStateId = kNoLabel"
    by (simp add: kNoStateId_def kNoLabel_def)
  have sz: "Size (StringCompactor wOne) = 1"
    by (simp add: StringCompactor_def)
  have 1: "nstates (data impl) = 1" by (simp add: d D_def DefaultCompactStore_default_def)
  have 3: "compacts (data impl) = [Some kNoLabel]"
    by (simp add: d D_def DefaultCompactStore_default_def)
  have 4: "NumStates impl = 1"
    by (simp add: NumStates_def pe 1 StateId_of_size_def)
  have 5: "fst (Start impl) = 0"
    by (simp add: Start_def cache d D_def DefaultCompactStore_default_def)
  have 6: "Final wZero impl 0 = Some wOne"
    by (simp add: Final_def cache c sz ComputeArc_def e0 exl Let_def)
  have 7: "NumArcs impl 0 = Some 0"
    by (simp add: NumArcs_def cache c sz ComputeArc_def e0 exl kk Let_def)
  have 8: "arcs_of_state impl 0 = Some []"
    by (simp add: arcs_of_state_def ArcIterator_new_def c sz e0 exl kk Let_def
        ArcIterator_arcs_none)
  show ?thesis
    by (rule exI [of _ impl]) (intro conjI init 1 noerr 3 4 5 6 7 8)
qed

theorem empty_string_fst_witness:
  "Init_iter True (StringCompactor (1::nat)) 0 1 []
     \<noteq> (None :: (nat, Label, 32 word) CompactFstImpl option)
   \<and> nstates (data (the (Init_iter True (StringCompactor (1::nat)) 0 1 [])
                    :: (nat, Label, 32 word) CompactFstImpl)) = 1
   \<and> \<not> error (data (the (Init_iter True (StringCompactor (1::nat)) 0 1 [])
                    :: (nat, Label, 32 word) CompactFstImpl))
   \<and> compacts (data (the (Init_iter True (StringCompactor (1::nat)) 0 1 [])
                    :: (nat, Label, 32 word) CompactFstImpl)) = [Some kNoLabel]
   \<and> NumStates (the (Init_iter True (StringCompactor (1::nat)) 0 1 [])
                    :: (nat, Label, 32 word) CompactFstImpl) = 1
   \<and> fst (Start (the (Init_iter True (StringCompactor (1::nat)) 0 1 [])
                    :: (nat, Label, 32 word) CompactFstImpl)) = 0
   \<and> Final 0 (the (Init_iter True (StringCompactor (1::nat)) 0 1 [])
                    :: (nat, Label, 32 word) CompactFstImpl) 0 = Some 1
   \<and> NumArcs (the (Init_iter True (StringCompactor (1::nat)) 0 1 [])
                    :: (nat, Label, 32 word) CompactFstImpl) 0 = Some 0
   \<and> arcs_of_state (the (Init_iter True (StringCompactor (1::nat)) 0 1 [])
                    :: (nat, Label, 32 word) CompactFstImpl) 0 = Some []"
proof -
  obtain impl :: "(nat, Label, 32 word) CompactFstImpl" where
    i: "Init_iter True (StringCompactor (1::nat)) 0 1 [] = Some impl"
    and r: "nstates (data impl) = 1 \<and> \<not> error (data impl)
      \<and> compacts (data impl) = [Some kNoLabel] \<and> NumStates impl = 1
      \<and> fst (Start impl) = 0 \<and> Final 0 impl 0 = Some 1 \<and> NumArcs impl 0 = Some 0
      \<and> arcs_of_state impl 0 = Some []"
    using empty_string_fst [of True 1 0, where ?'u = 32] by blast
  have n: "Init_iter True (StringCompactor (1::nat)) 0 1 []
     \<noteq> (None :: (nat, Label, 32 word) CompactFstImpl option)"
    unfolding i by simp
  show ?thesis
    unfolding i option.sel using n [unfolded i] r by blast
qed

subsection \<open>Alignment\<close>

lemma mod_not_ge: "0 < (a::nat) \<Longrightarrow> \<not> a \<le> p mod a"
  by (simp add: not_le)

lemma padding_eq:
  "0 < align \<Longrightarrow>
   padding pos align = (if pos mod align = 0 then 0 else align - pos mod align)"
proof -
  assume a: "0 < align"
  have m: "int pos mod int align = int (pos mod align)"
    by (simp add: zmod_int)
  have "(- int pos) mod int align =
          (if int pos mod int align = 0 then 0 else int align - int pos mod int align)"
    by (rule zmod_zminus1_eq_if)
  then have "(- int pos) mod int align =
          (if pos mod align = 0 then 0 else int align - int (pos mod align))"
    unfolding m by simp
  moreover have "pos mod align < align" using a by simp
  then have "nat (int align - int (pos mod align)) = align - pos mod align"
    by linarith
  ultimately show ?thesis
    by (simp add: padding_def)
qed

lemma padding_less:
  assumes "0 < align"
  shows "padding pos align < align"
proof -
  have "pos mod align < align" using assms by simp
  then show ?thesis
    unfolding padding_eq [OF assms] using assms by auto
qed

lemma padding_zero: "0 < align \<Longrightarrow> (padding pos align = 0) = (pos mod align = 0)"
  by (simp add: padding_eq mod_not_ge)

lemma padding_aligned: "0 < align \<Longrightarrow> (pos + padding pos align) mod align = 0"
proof -
  assume a: "0 < align"
  show ?thesis
  proof (cases "pos mod align = 0")
    case True
    then show ?thesis using a by (simp add: padding_eq)
  next
    case False
    have "pos = (pos div align) * align + pos mod align" by simp
    then have "pos + (align - pos mod align) = (pos div align) * align + align"
      using a by (metis add.assoc le_add_diff_inverse mod_le_divisor)
    then have "(pos + (align - pos mod align)) mod align = 0"
      by simp
    with False show ?thesis using a by (simp add: padding_eq)
  qed
qed

lemma padding_Suc:
  assumes "0 < align" and "pos mod align \<noteq> 0"
  shows "padding (Suc pos) align = padding pos align - 1"
proof -
  have lt: "pos mod align < align" using assms(1) by simp
  show ?thesis
    using assms lt by (auto simp add: padding_eq mod_Suc)
qed

lemma int_mod_zero: "0 < align \<Longrightarrow> (int pos mod int align = 0) = (pos mod align = 0)"
proof -
  have "int pos mod int align = int (pos mod align)" by (simp add: zmod_int)
  then show ?thesis by simp
qed

lemma tellg_good:
  assumes "0 \<le> fst (tellg strm)"
  shows "\<not> in_eof strm" "\<not> in_fail strm" "in_tellable strm"
    "tellg strm = (int (in_pos strm), strm)"
  using assms
  by (auto simp: tellg_def in_sentry_def in_good_def Let_def split: if_splits)

lemma tellg_failed: "in_fail strm \<Longrightarrow> tellg strm = (-1, strm)"
  by (simp add: tellg_def in_sentry_def in_good_def Let_def)

lemma AlignInput_loop_failed:
  "fst (tellg strm) < 0 \<Longrightarrow> 0 < k \<Longrightarrow>
   AlignInput_loop k align strm = (False, snd (tellg strm))"
  by (cases k) (simp_all add: case_prod_beta)

lemma AlignInput_loop_result:
  assumes a: "0 < align"
  shows "0 \<le> fst (tellg strm) \<Longrightarrow> padding (in_pos strm) align < k \<Longrightarrow>
         AlignInput_loop k align strm =
           (if padding (in_pos strm) align \<le> length (in_bytes strm) - in_pos strm
            then (True, strm\<lparr>in_pos := in_pos strm + padding (in_pos strm) align\<rparr>)
            else (False, strm\<lparr>in_pos := in_pos strm + (length (in_bytes strm) - in_pos strm),
                               in_eof := True, in_fail := True\<rparr>))"
proof (induction k arbitrary: strm)
  case 0
  then show ?case by simp
next
  case (Suc k)
  note g = tellg_good [OF Suc.prems(1)]
  show ?case
  proof (cases "in_pos strm mod align = 0")
    case True
    then have p0: "padding (in_pos strm) align = 0"
      using a by (simp add: padding_zero)
    have "AlignInput_loop (Suc k) align strm = (True, strm)"
      using True a by (simp add: g(4) int_mod_zero)
    then show ?thesis by (simp add: p0)
  next
    case False
    then have pp: "0 < padding (in_pos strm) align"
      using a padding_zero [of align "in_pos strm"] by simp
    have step: "AlignInput_loop (Suc k) align strm = AlignInput_loop k align (read1 strm)"
      using False a by (simp add: g(4) int_mod_zero)
    have sn: "in_sentry strm = strm"
      using g(1,2) by (simp add: in_sentry_def in_good_def)
    show ?thesis
    proof (cases "in_pos strm < length (in_bytes strm)")
      case True
      have r: "read1 strm = strm\<lparr>in_pos := Suc (in_pos strm)\<rparr>"
        using True g(2) by (simp add: read1_def Let_def sn)
      have ps: "padding (Suc (in_pos strm)) align = padding (in_pos strm) align - 1"
        using a False by (rule padding_Suc)
      have t1: "0 \<le> fst (tellg (read1 strm))"
        using g(1,2,3) by (simp add: r tellg_def in_sentry_def in_good_def Let_def)
      have k1: "padding (in_pos (read1 strm)) align < k"
        using Suc.prems(2) pp by (simp add: r ps)
      note IH = Suc.IH [OF t1 k1]
      have cond: "(padding (in_pos (read1 strm)) align
                     \<le> length (in_bytes (read1 strm)) - in_pos (read1 strm)) =
                  (padding (in_pos strm) align \<le> length (in_bytes strm) - in_pos strm)"
        using True pp by (auto simp add: r ps)
      have upd: "read1 strm\<lparr>in_pos := in_pos (read1 strm) + padding (in_pos (read1 strm)) align\<rparr>
                 = strm\<lparr>in_pos := in_pos strm + padding (in_pos strm) align\<rparr>"
        using pp by (simp add: r ps)
      have upd2: "read1 strm\<lparr>in_pos := in_pos (read1 strm)
                                  + (length (in_bytes (read1 strm)) - in_pos (read1 strm)),
                              in_eof := True, in_fail := True\<rparr>
                 = strm\<lparr>in_pos := in_pos strm + (length (in_bytes strm) - in_pos strm),
                        in_eof := True, in_fail := True\<rparr>"
        using True by (simp add: r)
      show ?thesis
        using IH unfolding cond upd upd2 step .
    next
      case False
      have r: "read1 strm = strm\<lparr>in_eof := True, in_fail := True\<rparr>"
        using False g(2) by (simp add: read1_def Let_def sn)
      have f: "tellg (read1 strm) = (-1, read1 strm)"
        by (rule tellg_failed) (simp add: r)
      have kpos: "0 < k" using Suc.prems(2) pp by simp
      have "AlignInput_loop k align (read1 strm) = (False, snd (tellg (read1 strm)))"
        using kpos by (intro AlignInput_loop_failed) (simp_all add: f)
      then have "AlignInput_loop (Suc k) align strm = (False, read1 strm)"
        unfolding step by (simp add: f)
      moreover have "\<not> padding (in_pos strm) align \<le> length (in_bytes strm) - in_pos strm"
        using False pp by simp
      moreover have "read1 strm =
          strm\<lparr>in_pos := in_pos strm + (length (in_bytes strm) - in_pos strm),
                in_eof := True, in_fail := True\<rparr>"
        using False by (simp add: r)
      ultimately show ?thesis by simp
    qed
  qed
qed

lemma AlignOutput_loop_failed:
  "tellp strm < 0 \<Longrightarrow> 0 < k \<Longrightarrow> AlignOutput_loop k align strm = (False, strm)"
  by (cases k) simp_all

lemma put_byte_take:
  "pos \<le> length bs \<Longrightarrow> take (Suc pos) (put_byte bs pos ch) = take pos bs @ [ch]"
  by (cases "pos < length bs") (simp_all add: put_byte_def take_Suc_conv_app_nth)

lemma put_byte_drop:
  "pos \<le> length bs \<Longrightarrow> drop (Suc pos + n) (put_byte bs pos ch) = drop (Suc pos + n) bs"
  by (cases "pos < length bs") (simp_all add: put_byte_def)

lemma put_byte_length:
  "pos \<le> length bs \<Longrightarrow> Suc pos \<le> length (put_byte bs pos ch)"
  by (cases "pos < length bs") (simp_all add: put_byte_def)

lemma AlignOutput_loop_result:
  assumes a: "0 < align"
  shows "0 \<le> tellp strm \<Longrightarrow> padding (out_pos strm) align < k \<Longrightarrow>
         (if room strm (padding (out_pos strm) align)
          then fst (AlignOutput_loop k align strm)
               \<and> 0 \<le> tellp (snd (AlignOutput_loop k align strm))
               \<and> out_pos (snd (AlignOutput_loop k align strm)) =
                   out_pos strm + padding (out_pos strm) align
               \<and> (out_pos strm \<le> length (out_bytes strm) \<longrightarrow>
                    out_bytes (snd (AlignOutput_loop k align strm)) =
                      take (out_pos strm) (out_bytes strm)
                      @ replicate (padding (out_pos strm) align) (CHR 0x00)
                      @ drop (out_pos strm + padding (out_pos strm) align) (out_bytes strm))
          else \<not> fst (AlignOutput_loop k align strm)
               \<and> tellp (snd (AlignOutput_loop k align strm)) < 0)"
proof (induction k arbitrary: strm)
  case 0
  then show ?case by simp
next
  case (Suc k)
  have ok: "\<not> out_fail strm" "out_tellable strm" and tg: "tellp strm = int (out_pos strm)"
    using Suc.prems(1) by (auto simp: tellp_def split: if_splits)
  show ?case
  proof (cases "out_pos strm mod align = 0")
    case True
    then have p0: "padding (out_pos strm) align = 0"
      using a by (simp add: padding_zero)
    have "AlignOutput_loop (Suc k) align strm = (True, strm)"
      using True a by (simp add: tg int_mod_zero)
    then show ?thesis using Suc.prems(1) by (simp add: p0 room_def)
  next
    case False
    then have pp: "0 < padding (out_pos strm) align"
      using a padding_zero [of align "out_pos strm"] by simp
    have step: "AlignOutput_loop (Suc k) align strm =
                AlignOutput_loop k align (write1 (CHR 0x00) strm)"
      using False a by (simp add: tg int_mod_zero)
    have ps: "padding (Suc (out_pos strm)) align = padding (out_pos strm) align - 1"
      using a False by (rule padding_Suc)
    show ?thesis
    proof (cases "case out_limit strm of None \<Rightarrow> True | Some l \<Rightarrow> out_pos strm < l")
      case True
      define strm1 where "strm1 = write1 (CHR 0x00) strm"
      have w: "strm1 = strm\<lparr>out_bytes := put_byte (out_bytes strm) (out_pos strm) (CHR 0x00),
                              out_pos := out_pos strm + 1\<rparr>"
        using True ok by (simp add: write1_def strm1_def)
      have p1: "out_pos strm1 = Suc (out_pos strm)" by (simp add: w)
      have t1: "0 \<le> tellp strm1"
        using ok by (simp add: w tellp_def)
      have k1: "padding (out_pos strm1) align < k"
        using Suc.prems(2) pp by (simp add: p1 ps)
      note IH = Suc.IH [OF t1 k1, folded strm1_def]
      have rm: "room strm1 (padding (out_pos strm1) align) =
                room strm (padding (out_pos strm) align)"
        using True pp
        by (auto simp add: room_def p1 ps w split: option.splits)
      show ?thesis
      proof (cases "room strm (padding (out_pos strm) align)")
        case r: True
        from IH r rm have R: "fst (AlignOutput_loop k align strm1)"
          "0 \<le> tellp (snd (AlignOutput_loop k align strm1))"
          "out_pos (snd (AlignOutput_loop k align strm1)) =
             out_pos strm1 + padding (out_pos strm1) align"
          "out_pos strm1 \<le> length (out_bytes strm1) \<Longrightarrow>
             out_bytes (snd (AlignOutput_loop k align strm1)) =
               take (out_pos strm1) (out_bytes strm1)
               @ replicate (padding (out_pos strm1) align) (CHR 0x00)
               @ drop (out_pos strm1 + padding (out_pos strm1) align) (out_bytes strm1)"
          by simp_all
        have posr: "out_pos strm1 + padding (out_pos strm1) align =
                    out_pos strm + padding (out_pos strm) align"
          using pp by (simp add: p1 ps)
        have bytes: "out_bytes (snd (AlignOutput_loop k align strm1)) =
                 take (out_pos strm) (out_bytes strm)
                 @ replicate (padding (out_pos strm) align) (CHR 0x00)
                 @ drop (out_pos strm + padding (out_pos strm) align) (out_bytes strm)"
          if le: "out_pos strm \<le> length (out_bytes strm)"
        proof -
          have b1: "out_bytes strm1 = put_byte (out_bytes strm) (out_pos strm) (CHR 0x00)"
            by (simp add: w)
          have le1: "out_pos strm1 \<le> length (out_bytes strm1)"
            unfolding p1 b1 using le by (rule put_byte_length)
          have tk: "take (out_pos strm1) (out_bytes strm1) =
                    take (out_pos strm) (out_bytes strm) @ [CHR 0x00]"
            unfolding p1 b1 using le by (rule put_byte_take)
          have "Suc (out_pos strm) + (padding (out_pos strm) align - 1) =
                out_pos strm + padding (out_pos strm) align"
            using pp by simp
          then have dr: "drop (out_pos strm1 + padding (out_pos strm1) align) (out_bytes strm1) =
                    drop (out_pos strm + padding (out_pos strm) align) (out_bytes strm)"
            unfolding p1 ps b1
            using put_byte_drop [OF le, of "padding (out_pos strm) align - 1" "CHR 0x00"]
            by simp
          have rp: "[CHR 0x00] @ replicate (padding (out_pos strm1) align) (CHR 0x00) =
                    replicate (padding (out_pos strm) align) (CHR 0x00)"
            using pp unfolding p1 ps
            by (cases "padding (out_pos strm) align") simp_all
          have "out_bytes (snd (AlignOutput_loop k align strm1)) =
               take (out_pos strm) (out_bytes strm)
               @ ([CHR 0x00] @ replicate (padding (out_pos strm1) align) (CHR 0x00))
               @ drop (out_pos strm + padding (out_pos strm) align) (out_bytes strm)"
            using R(4) [OF le1] unfolding tk dr by simp
          then show ?thesis unfolding rp .
        qed
        show ?thesis
          unfolding step strm1_def [symmetric]
          using r R(1,2) R(3) [unfolded posr] bytes by simp
      next
        case r: False
        with IH rm show ?thesis
          unfolding step strm1_def [symmetric] by simp
      qed
    next
      case False
      have r: "write1 (CHR 0x00) strm = strm\<lparr>out_fail := True\<rparr>"
        using False ok by (simp add: write1_def)
      have f: "tellp (write1 (CHR 0x00) strm) < 0" by (simp add: r tellp_def)
      have kpos: "0 < k" using Suc.prems(2) pp by simp
      have "AlignOutput_loop (Suc k) align strm = (False, write1 (CHR 0x00) strm)"
        unfolding step using f kpos by (rule AlignOutput_loop_failed)
      moreover have "\<not> room strm (padding (out_pos strm) align)"
        using False pp by (auto simp: room_def split: option.splits)
      ultimately show ?thesis using f by simp
    qed
  qed
qed

lemma AlignOutput_loop_tellable:
  "out_tellable (snd (AlignOutput_loop k align strm)) = out_tellable strm"
proof (induction k arbitrary: strm)
  case 0
  then show ?case by simp
next
  case (Suc k)
  have w: "out_tellable (write1 ch strm) = out_tellable strm" for ch
    by (simp add: write1_def)
  show ?case
    using Suc.IH [of "write1 (CHR 0x00) strm"] by (simp add: Let_def w)
qed

lemma AlignOutput_facts:
  assumes a: "0 < align"
  shows "fst (AlignOutput strm align) = (0 \<le> tellp (snd (AlignOutput strm align)))"
    and "fst (AlignOutput strm align) \<Longrightarrow>
         out_pos (snd (AlignOutput strm align)) = out_pos strm + padding (out_pos strm) align"
    and "fst (AlignOutput strm align) \<Longrightarrow> out_pos strm \<le> length (out_bytes strm) \<Longrightarrow>
         out_bytes (snd (AlignOutput strm align)) =
           take (out_pos strm) (out_bytes strm)
           @ replicate (padding (out_pos strm) align) (CHR 0x00)
           @ drop (out_pos strm + padding (out_pos strm) align) (out_bytes strm)"
    and "fst (AlignOutput strm align) =
           (0 \<le> tellp strm \<and> room strm (padding (out_pos strm) align))"
proof -
  have all: "fst (AlignOutput strm align) = (0 \<le> tellp (snd (AlignOutput strm align)))
    \<and> (fst (AlignOutput strm align) \<longrightarrow>
         out_pos (snd (AlignOutput strm align)) = out_pos strm + padding (out_pos strm) align
         \<and> (out_pos strm \<le> length (out_bytes strm) \<longrightarrow>
              out_bytes (snd (AlignOutput strm align)) =
                take (out_pos strm) (out_bytes strm)
                @ replicate (padding (out_pos strm) align) (CHR 0x00)
                @ drop (out_pos strm + padding (out_pos strm) align) (out_bytes strm)))
    \<and> fst (AlignOutput strm align) =
           (0 \<le> tellp strm \<and> room strm (padding (out_pos strm) align))"
  proof (cases "tellp strm < 0")
    case True
    have "AlignOutput strm align = (False, strm)"
      unfolding AlignOutput_def using True a by (rule AlignOutput_loop_failed)
    then show ?thesis using True by simp
  next
    case False
    then have t: "0 \<le> tellp strm" by simp
    note R = AlignOutput_loop_result [OF a t padding_less [OF a], folded AlignOutput_def]
    show ?thesis
    proof (cases "room strm (padding (out_pos strm) align)")
      case True
      with R show ?thesis using t by simp
    next
      case False
      with R show ?thesis using t by simp
    qed
  qed
  show "fst (AlignOutput strm align) = (0 \<le> tellp (snd (AlignOutput strm align)))"
    using all by blast
  show "out_pos (snd (AlignOutput strm align)) = out_pos strm + padding (out_pos strm) align"
    if "fst (AlignOutput strm align)"
    using all that by blast
  show "out_bytes (snd (AlignOutput strm align)) =
           take (out_pos strm) (out_bytes strm)
           @ replicate (padding (out_pos strm) align) (CHR 0x00)
           @ drop (out_pos strm + padding (out_pos strm) align) (out_bytes strm)"
    if "fst (AlignOutput strm align)" "out_pos strm \<le> length (out_bytes strm)"
    using all that by blast
  show "fst (AlignOutput strm align) =
           (0 \<le> tellp strm \<and> room strm (padding (out_pos strm) align))"
    using all by blast
qed

text \<open>
  C8, as the code has it. For a positive \<open>align\<close>, and with \<open>pos\<close> the position of
  the stream on entry:
  \<^item> when the position cannot be determined on entry (\<open>tellg\<close> is negative),
    \<open>AlignInput\<close> returns false and consumes nothing;
  \<^item> when it can and the stream holds at least \<open>(-pos) mod align\<close> more bytes,
    \<open>AlignInput\<close> consumes exactly that many bytes, which leaves the position at a
    multiple of \<open>align\<close>, and returns true;
  \<^item> when it can and the stream ends before, \<open>AlignInput\<close> consumes the bytes that are
    left, fewer than \<open>(-pos) mod align\<close>, and returns false: the read at the end of the
    stream sets \<open>eofbit\<close> and \<open>failbit\<close>, and the next \<open>tellg\<close> is negative.

  \<open>AlignOutput\<close> likewise returns false and writes nothing when \<open>tellp\<close> is negative
  on entry; writes exactly \<open>(-pos) mod align\<close> bytes, all of them NUL, and returns true
  when the sink has room for them; and returns false, on a stream that has failed, when
  it has not.
\<close>

theorem Align_to_multiple:
  assumes a: "0 < align"
  shows "(fst (tellg strm) < 0 \<longrightarrow> AlignInput strm align = (False, snd (tellg strm)))
    \<and> (0 \<le> fst (tellg strm)
         \<and> padding (in_pos strm) align \<le> length (in_bytes strm) - in_pos strm \<longrightarrow>
         AlignInput strm align =
           (True, strm\<lparr>in_pos := in_pos strm + padding (in_pos strm) align\<rparr>)
         \<and> (in_pos strm + padding (in_pos strm) align) mod align = 0)
    \<and> (0 \<le> fst (tellg strm)
         \<and> length (in_bytes strm) - in_pos strm < padding (in_pos strm) align \<longrightarrow>
         AlignInput strm align =
           (False, strm\<lparr>in_pos := in_pos strm + (length (in_bytes strm) - in_pos strm),
                         in_eof := True, in_fail := True\<rparr>))
    \<and> (tellp ostrm < 0 \<longrightarrow> AlignOutput ostrm align = (False, ostrm))
    \<and> (0 \<le> tellp ostrm \<and> room ostrm (padding (out_pos ostrm) align) \<longrightarrow>
         fst (AlignOutput ostrm align)
         \<and> \<not> out_fail (snd (AlignOutput ostrm align))
         \<and> out_pos (snd (AlignOutput ostrm align)) =
             out_pos ostrm + padding (out_pos ostrm) align
         \<and> (out_pos ostrm + padding (out_pos ostrm) align) mod align = 0
         \<and> (out_pos ostrm \<le> length (out_bytes ostrm) \<longrightarrow>
              out_bytes (snd (AlignOutput ostrm align)) =
                take (out_pos ostrm) (out_bytes ostrm)
                @ replicate (padding (out_pos ostrm) align) (CHR 0x00)
                @ drop (out_pos ostrm + padding (out_pos ostrm) align) (out_bytes ostrm)))
    \<and> (0 \<le> tellp ostrm \<and> \<not> room ostrm (padding (out_pos ostrm) align) \<longrightarrow>
         \<not> fst (AlignOutput ostrm align) \<and> out_fail (snd (AlignOutput ostrm align)))"
proof (intro conjI impI)
  show "AlignInput strm align = (False, snd (tellg strm))" if "fst (tellg strm) < 0"
    unfolding AlignInput_def using that a by (rule AlignInput_loop_failed)
  note RI = AlignInput_loop_result [OF a _ padding_less [OF a], folded AlignInput_def]
  show "AlignInput strm align =
           (True, strm\<lparr>in_pos := in_pos strm + padding (in_pos strm) align\<rparr>)"
    if "0 \<le> fst (tellg strm)
         \<and> padding (in_pos strm) align \<le> length (in_bytes strm) - in_pos strm"
    using RI [of strm] that by simp
  show "(in_pos strm + padding (in_pos strm) align) mod align = 0"
    by (rule padding_aligned [OF a])
  show "AlignInput strm align =
           (False, strm\<lparr>in_pos := in_pos strm + (length (in_bytes strm) - in_pos strm),
                         in_eof := True, in_fail := True\<rparr>)"
    if "0 \<le> fst (tellg strm)
         \<and> length (in_bytes strm) - in_pos strm < padding (in_pos strm) align"
    using RI [of strm] that by simp
  show "AlignOutput ostrm align = (False, ostrm)" if "tellp ostrm < 0"
    unfolding AlignOutput_def using that a by (rule AlignOutput_loop_failed)
  note F = AlignOutput_facts [OF a, of ostrm]
  show "fst (AlignOutput ostrm align)"
    if "0 \<le> tellp ostrm \<and> room ostrm (padding (out_pos ostrm) align)"
    unfolding F(4) using that .
  show "\<not> out_fail (snd (AlignOutput ostrm align))"
    if h: "0 \<le> tellp ostrm \<and> room ostrm (padding (out_pos ostrm) align)"
  proof -
    have "fst (AlignOutput ostrm align)" unfolding F(4) using h .
    then have "0 \<le> tellp (snd (AlignOutput ostrm align))" unfolding F(1) .
    then show ?thesis by (auto simp: tellp_def split: if_splits)
  qed
  show "out_pos (snd (AlignOutput ostrm align)) = out_pos ostrm + padding (out_pos ostrm) align"
    if h: "0 \<le> tellp ostrm \<and> room ostrm (padding (out_pos ostrm) align)"
  proof -
    have "fst (AlignOutput ostrm align)" unfolding F(4) using h .
    then show ?thesis by (rule F(2))
  qed
  show "(out_pos ostrm + padding (out_pos ostrm) align) mod align = 0"
    by (rule padding_aligned [OF a])
  show "out_bytes (snd (AlignOutput ostrm align)) =
                take (out_pos ostrm) (out_bytes ostrm)
                @ replicate (padding (out_pos ostrm) align) (CHR 0x00)
                @ drop (out_pos ostrm + padding (out_pos ostrm) align) (out_bytes ostrm)"
    if h: "0 \<le> tellp ostrm \<and> room ostrm (padding (out_pos ostrm) align)"
      and le: "out_pos ostrm \<le> length (out_bytes ostrm)"
  proof -
    have "fst (AlignOutput ostrm align)" unfolding F(4) using h .
    then show ?thesis using le by (rule F(3))
  qed
  have nf: "\<not> fst (AlignOutput ostrm align)"
    if "0 \<le> tellp ostrm \<and> \<not> room ostrm (padding (out_pos ostrm) align)"
    unfolding F(4) using that by simp
  show "\<not> fst (AlignOutput ostrm align)"
    if "0 \<le> tellp ostrm \<and> \<not> room ostrm (padding (out_pos ostrm) align)"
    using that by (rule nf)
  show "out_fail (snd (AlignOutput ostrm align))"
    if h: "0 \<le> tellp ostrm \<and> \<not> room ostrm (padding (out_pos ostrm) align)"
  proof -
    have t: "out_tellable ostrm" "\<not> out_fail ostrm"
      using h by (auto simp: tellp_def split: if_splits)
    note R = AlignOutput_loop_result [OF a _ padding_less [OF a], of ostrm,
        folded AlignOutput_def]
    have "tellp (snd (AlignOutput ostrm align)) < 0"
      using R h by simp
    moreover have "out_tellable (snd (AlignOutput ostrm align))"
      using t(1) by (simp add: AlignOutput_def AlignOutput_loop_tellable)
    ultimately show ?thesis by (auto simp: tellp_def split: if_splits)
  qed
qed

theorem Align_to_multiple_witness:
  "(0::nat) < 4
   \<and> AlignInput \<lparr>in_bytes = ''abcdefghij'', in_pos = 1, in_eof = False, in_fail = False,
                  in_tellable = True\<rparr> 4
       = (True, \<lparr>in_bytes = ''abcdefghij'', in_pos = 4, in_eof = False, in_fail = False,
                 in_tellable = True\<rparr>)
   \<and> AlignInput example_istream 4
       = (False, \<lparr>in_bytes = ''abcdef'', in_pos = 6, in_eof = True, in_fail = True,
                  in_tellable = True\<rparr>)
   \<and> fst (AlignOutput \<lparr>out_bytes = ''a'', out_pos = 1, out_fail = False, out_tellable = True,
                         out_limit = None\<rparr> 4)
   \<and> out_bytes (snd (AlignOutput \<lparr>out_bytes = ''a'', out_pos = 1, out_fail = False,
                                    out_tellable = True, out_limit = None\<rparr> 4))
       = [CHR ''a'', CHR 0x00, CHR 0x00, CHR 0x00]
   \<and> \<not> fst (AlignOutput example_ostream 4)
   \<and> AlignInput (example_istream\<lparr>in_tellable := False\<rparr>) 4
       = (False, example_istream\<lparr>in_tellable := False\<rparr>)
   \<and> AlignInput (example_istream\<lparr>in_eof := True\<rparr>) 4
       = (False, example_istream\<lparr>in_eof := True, in_fail := True\<rparr>)
   \<and> AlignOutput (example_ostream\<lparr>out_tellable := False\<rparr>) 4
       = (False, example_ostream\<lparr>out_tellable := False\<rparr>)"
proof -
  let ?i = "\<lparr>in_bytes = ''abcdefghij'', in_pos = 1, in_eof = False, in_fail = False,
             in_tellable = True\<rparr>"
  let ?o = "\<lparr>out_bytes = ''a'', out_pos = 1, out_fail = False, out_tellable = True,
             out_limit = None\<rparr>"
  have h: "(0::nat) < 4" by simp
  have pad: "padding 1 4 = 3" "padding (Suc 0) 4 = 3" "padding 5 4 = 3"
    by (simp_all add: padding_def)
  note T = Align_to_multiple [OF h, of ?i ?o]
  note T2 = T [THEN conjunct2, THEN conjunct1]
  note T5 = T [THEN conjunct2, THEN conjunct2, THEN conjunct2, THEN conjunct2, THEN conjunct1]
  have gi: "0 \<le> fst (tellg ?i)
            \<and> padding (in_pos ?i) 4 \<le> length (in_bytes ?i) - in_pos ?i"
    by (simp add: tellg_def in_sentry_def in_good_def Let_def pad)
  have i2: "AlignInput ?i 4 = (True, ?i\<lparr>in_pos := in_pos ?i + padding (in_pos ?i) 4\<rparr>)"
    by (rule T2 [rule_format, OF gi, THEN conjunct1])
  have i3: "?i\<lparr>in_pos := in_pos ?i + padding (in_pos ?i) 4\<rparr> =
            \<lparr>in_bytes = ''abcdefghij'', in_pos = 4, in_eof = False, in_fail = False,
             in_tellable = True\<rparr>"
    by (simp add: pad)
  note i = i2 [unfolded i3]
  note U = Align_to_multiple [OF h, of example_istream example_ostream]
  note U3 = U [THEN conjunct2, THEN conjunct2, THEN conjunct1]
  note U6 = U [THEN conjunct2, THEN conjunct2, THEN conjunct2, THEN conjunct2, THEN conjunct2]
  have ge: "0 \<le> fst (tellg example_istream)
            \<and> length (in_bytes example_istream) - in_pos example_istream
                < padding (in_pos example_istream) 4"
    by (simp add: example_istream_def tellg_def in_sentry_def in_good_def Let_def pad)
  have e2: "AlignInput example_istream 4 =
      (False, example_istream\<lparr>in_pos := in_pos example_istream
                 + (length (in_bytes example_istream) - in_pos example_istream),
               in_eof := True, in_fail := True\<rparr>)"
    by (rule U3 [rule_format, OF ge])
  have e3: "example_istream\<lparr>in_pos := in_pos example_istream
                 + (length (in_bytes example_istream) - in_pos example_istream),
               in_eof := True, in_fail := True\<rparr> =
            \<lparr>in_bytes = ''abcdef'', in_pos = 6, in_eof = True, in_fail = True,
             in_tellable = True\<rparr>"
    by (simp add: example_istream_def)
  note e = e2 [unfolded e3]
  have go: "0 \<le> tellp ?o \<and> room ?o (padding (out_pos ?o) 4)"
    by (simp add: tellp_def room_def pad)
  have o1: "fst (AlignOutput ?o 4)"
    by (rule T5 [rule_format, OF go, THEN conjunct1])
  have le: "out_pos ?o \<le> length (out_bytes ?o)" by simp
  have "out_bytes (snd (AlignOutput ?o 4)) =
         take (out_pos ?o) (out_bytes ?o) @ replicate (padding (out_pos ?o) 4) (CHR 0x00)
         @ drop (out_pos ?o + padding (out_pos ?o) 4) (out_bytes ?o)"
    by (rule T5 [rule_format, OF go, THEN conjunct2, THEN conjunct2, THEN conjunct2,
          THEN conjunct2, rule_format, OF le])
  also have "\<dots> = [CHR ''a'', CHR 0x00, CHR 0x00, CHR 0x00]"
    by (simp add: pad numeral_3_eq_3)
  finally have o2: "out_bytes (snd (AlignOutput ?o 4)) = [CHR ''a'', CHR 0x00, CHR 0x00, CHR 0x00]" .
  have gx: "0 \<le> tellp example_ostream
            \<and> \<not> room example_ostream (padding (out_pos example_ostream) 4)"
    by (simp add: example_ostream_def tellp_def room_def pad)
  have x: "\<not> fst (AlignOutput example_ostream 4)"
    by (rule U6 [rule_format, OF gx, THEN conjunct1])
  note V = Align_to_multiple [OF h, of "example_istream\<lparr>in_tellable := False\<rparr>"
      "example_ostream\<lparr>out_tellable := False\<rparr>"]
  note V1 = V [THEN conjunct1]
  note V4 = V [THEN conjunct2, THEN conjunct2, THEN conjunct2, THEN conjunct1]
  have tn: "tellg (example_istream\<lparr>in_tellable := False\<rparr>) =
            (-1, example_istream\<lparr>in_tellable := False\<rparr>)"
    by (simp add: example_istream_def tellg_def in_sentry_def in_good_def Let_def)
  have n1: "AlignInput (example_istream\<lparr>in_tellable := False\<rparr>) 4
       = (False, example_istream\<lparr>in_tellable := False\<rparr>)"
    using V1 unfolding tn by simp
  note W = Align_to_multiple [OF h, of "example_istream\<lparr>in_eof := True\<rparr>" example_ostream]
  note W1 = W [THEN conjunct1]
  have te: "tellg (example_istream\<lparr>in_eof := True\<rparr>) =
            (-1, example_istream\<lparr>in_eof := True, in_fail := True\<rparr>)"
    by (simp add: example_istream_def tellg_def in_sentry_def in_good_def Let_def)
  have n2: "AlignInput (example_istream\<lparr>in_eof := True\<rparr>) 4
       = (False, example_istream\<lparr>in_eof := True, in_fail := True\<rparr>)"
    using W1 unfolding te by simp
  have pn: "tellp (example_ostream\<lparr>out_tellable := False\<rparr>) < 0"
    by (simp add: tellp_def)
  have n3: "AlignOutput (example_ostream\<lparr>out_tellable := False\<rparr>) 4
       = (False, example_ostream\<lparr>out_tellable := False\<rparr>)"
    by (rule V4 [rule_format, OF pn])
  show ?thesis
    by (intro conjI h i e o1 o2 x n1 n2 n3)
qed

text \<open>
  C8 as the claim words it has \<open>AlignInput\<close> consume exactly \<open>(-pos) mod align\<close> bytes
  and return false if and only if the position cannot be determined. On a stream of six
  bytes at the position 5 the position can be determined, \<open>(-5) mod 4\<close> is 3, and
  \<open>AlignInput\<close> with \<open>align = 4\<close> consumes one byte and returns false. \<open>AlignOutput\<close>
  on a stream at the position 5 whose sink holds six bytes at most returns false too,
  though the position can be determined.
\<close>

theorem Align_to_multiple_counterexample:
  "\<not> (fst (AlignInput example_istream 4) = (0 \<le> fst (tellg example_istream))
       \<and> in_pos (snd (AlignInput example_istream 4)) =
           in_pos example_istream + padding (in_pos example_istream) 4)
   \<and> \<not> (fst (AlignOutput example_ostream 4) = (0 \<le> tellp example_ostream))
   \<and> fst (tellg example_istream) = 5
   \<and> padding (in_pos example_istream) 4 = 3
   \<and> fst (AlignInput example_istream 4) = False
   \<and> in_pos (snd (AlignInput example_istream 4)) = in_pos example_istream + 1
   \<and> tellp example_ostream = 5
   \<and> fst (AlignOutput example_ostream 4) = False"
proof -
  have pad: "padding 5 4 = 3" by (simp add: padding_def)
  have t: "tellg example_istream = (5, example_istream)"
    by (simp add: example_istream_def tellg_def in_sentry_def in_good_def Let_def)
  have r: "read1 example_istream = example_istream\<lparr>in_pos := 6\<rparr>"
    by (simp add: example_istream_def read1_def in_sentry_def in_good_def Let_def)
  have t1: "tellg (example_istream\<lparr>in_pos := 6\<rparr>) = (6, example_istream\<lparr>in_pos := 6\<rparr>)"
    by (simp add: example_istream_def tellg_def in_sentry_def in_good_def Let_def)
  have r1: "read1 (example_istream\<lparr>in_pos := 6\<rparr>) =
            example_istream\<lparr>in_pos := 6, in_eof := True, in_fail := True\<rparr>"
    by (simp add: example_istream_def read1_def in_sentry_def in_good_def Let_def)
  have t2: "tellg (example_istream\<lparr>in_pos := 6, in_eof := True, in_fail := True\<rparr>) =
            (-1, example_istream\<lparr>in_pos := 6, in_eof := True, in_fail := True\<rparr>)"
    by (rule tellg_failed) simp
  have four: "(4::nat) = Suc (Suc (Suc (Suc 0)))" by simp
  have i: "AlignInput example_istream 4 =
           (False, example_istream\<lparr>in_pos := 6, in_eof := True, in_fail := True\<rparr>)"
    unfolding AlignInput_def
    apply (subst (1) four)
    apply (simp only: AlignInput_loop.simps t r t1 r1 t2 prod.case)
    apply simp
    done
  have ip: "in_pos example_istream = 5" by (simp add: example_istream_def)
  have p: "tellp example_ostream = 5"
    by (simp add: example_ostream_def tellp_def)
  have w: "write1 (CHR 0x00) example_ostream =
           example_ostream\<lparr>out_bytes := ''abcde'' @ [CHR 0x00], out_pos := 6\<rparr>"
    by (simp add: example_ostream_def write1_def put_byte_def)
  have p1: "tellp (example_ostream\<lparr>out_bytes := ''abcde'' @ [CHR 0x00], out_pos := 6\<rparr>) = 6"
    by (simp add: example_ostream_def tellp_def)
  have w1: "write1 (CHR 0x00)
              (example_ostream\<lparr>out_bytes := ''abcde'' @ [CHR 0x00], out_pos := 6\<rparr>) =
            example_ostream\<lparr>out_bytes := ''abcde'' @ [CHR 0x00], out_pos := 6,
                             out_fail := True\<rparr>"
    by (simp add: example_ostream_def write1_def)
  have p2: "tellp (example_ostream\<lparr>out_bytes := ''abcde'' @ [CHR 0x00], out_pos := 6,
                             out_fail := True\<rparr>) = -1"
    by (simp add: tellp_def)
  have ob: "AlignOutput example_ostream 4 =
           (False, example_ostream\<lparr>out_bytes := ''abcde'' @ [CHR 0x00], out_pos := 6,
                             out_fail := True\<rparr>)"
    unfolding AlignOutput_def
    apply (subst (1) four)
    apply (simp only: AlignOutput_loop.simps Let_def p w p1 w1 p2)
    apply simp
    done
  show ?thesis
    unfolding i ob t p pad ip by simp
qed

subsection \<open>Mapped files\<close>

text \<open>
  C9, on the code. \<open>MappedFile::Allocate\<close>, \<open>MappedFile::Map\<close> and
  \<open>MappedFile::Borrow\<close> return the null pointer for every argument, and so
  \<open>DefaultCompactStore::Read\<close> returns the null pointer for every stream, header and
  compactor.
\<close>

theorem MappedFile_returns_null:
  "Allocate 16 16 = None
   \<and> Map strm memorymap source sz = (None, strm)
   \<and> Borrow bytes = None
   \<and> DefaultCompactStore_Read arch_align elem_size as_states as_compacts strm opts hdr c = None"
  by (simp add: Allocate_def Map_def Borrow_def DefaultCompactStore_Read_def Let_def
      split: prod.splits)

subsection \<open>Extracting from an archive\<close>

lemma find_first_of_None:
  "set delim \<inter> set (drop pos line) = {} \<Longrightarrow> find_first_of line delim pos = None"
proof -
  assume a: "set delim \<inter> set (drop pos line) = {}"
  have "\<forall>i \<in> set [pos..<length line]. line ! i \<notin> set delim"
  proof
    fix i assume "i \<in> set [pos..<length line]"
    then have i: "pos \<le> i" "i < length line" by simp_all
    then have "line ! i = drop pos line ! (i - pos)" by simp
    moreover have "i - pos < length (drop pos line)" using i by simp
    ultimately have "line ! i \<in> set (drop pos line)" by (metis nth_mem)
    then show "line ! i \<notin> set delim" using a by blast
  qed
  then have "filter (\<lambda>i. line ! i \<in> set delim) [pos..<length line] = []"
    by (simp only: filter_empty_conv)
  then show ?thesis by (simp add: find_first_of_def)
qed

lemma find_first_of_Some:
  assumes d: "d \<in> set delim" and a: "set delim \<inter> set a = {}"
  shows "find_first_of (a @ d # b) delim 0 = Some (length a)"
proof -
  let ?line = "a @ d # b"
  let ?P = "\<lambda>i. ?line ! i \<in> set delim"
  have split: "[0..<length ?line] = [0..<length a] @ length a # [Suc (length a)..<length ?line]"
    by (metis add_Suc_right length_Cons length_append less_add_Suc1 upt_conv_Cons upt_add_eq_append zero_le le_add1)
  have "\<forall>i \<in> set [0..<length a]. \<not> ?P i"
  proof
    fix i assume "i \<in> set [0..<length a]"
    then have i: "i < length a" by simp
    then have "?line ! i = a ! i" by (simp add: nth_append)
    moreover have "a ! i \<in> set a" using i by simp
    ultimately show "\<not> ?P i" using a by auto
  qed
  then have e: "filter ?P [0..<length a] = []"
    by (simp only: filter_empty_conv)
  have h: "?P (length a)" using d by simp
  have "filter ?P [0..<length ?line] = length a # filter ?P [Suc (length a)..<length ?line]"
    unfolding split filter_append e using h by simp
  then show ?thesis unfolding find_first_of_def by simp
qed

lemma SplitString_none:
  assumes "set delim \<inter> set line = {}" and "line \<noteq> []"
  shows "SplitString line delim omit = [line]"
proof -
  have n: "find_first_of line delim 0 = None"
    using assms(1) by (simp add: find_first_of_None)
  show ?thesis
    unfolding SplitString_def
    apply (subst SplitString_loop.simps)
    apply (simp add: n Let_def assms(2))
    apply (subst SplitString_loop.simps)
    apply simp
    done
qed

lemma SplitString_two:
  assumes d: "d \<in> set delim" and a: "set delim \<inter> set a = {}" and b: "set delim \<inter> set b = {}"
  shows "SplitString (a @ d # b) delim False = [a, b]"
proof -
  have f1: "find_first_of (a @ d # b) delim 0 = Some (length a)"
    using d a by (rule find_first_of_Some)
  have f2: "find_first_of (a @ d # b) delim (Suc (length a)) = None"
    using b by (simp add: find_first_of_None)
  show ?thesis
    unfolding SplitString_def
    apply (subst SplitString_loop.simps)
    apply (simp add: f1 Let_def)
    apply (subst SplitString_loop.simps)
    apply (simp add: f2 Let_def)
    apply (subst SplitString_loop.simps)
    apply simp
    done
qed

lemma Find_absent:
  assumes "b \<notin> fst ` set (far_entries r)"
  shows "Find r b = (False, r)"
proof -
  have "\<forall>i \<in> set [0..<length (far_entries r)]. fst (far_entries r ! i) \<noteq> b"
  proof
    fix i assume "i \<in> set [0..<length (far_entries r)]"
    then have "i < length (far_entries r)" by simp
    then have "far_entries r ! i \<in> set (far_entries r)" by simp
    then have "fst (far_entries r ! i) \<in> fst ` set (far_entries r)" by (rule imageI)
    then show "fst (far_entries r ! i) \<noteq> b" using assms by auto
  qed
  then have "filter (\<lambda>i. fst (far_entries r ! i) = b) [0..<length (far_entries r)] = []"
    by (simp only: filter_empty_conv)
  then show ?thesis by (simp add: Find_def)
qed

lemma Find_second:
  assumes "k1 \<noteq> k2"
  shows "Find \<lparr>far_entries = [(k1, f1), (k2, f2), (k3, f3), (k4, f4)], far_pos = p\<rparr> k2
         = (True, \<lparr>far_entries = [(k1, f1), (k2, f2), (k3, f3), (k4, f4)], far_pos = 1\<rparr>)"
proof -
  have u: "[0..<4] = [0, 1, 2, 3::nat]"
    by (simp add: upt_rec)
  have l: "length [(k1, f1), (k2, f2), (k3, f3), (k4, f4)] = 4"
    by simp
  show ?thesis
    unfolding Find_def FarReader.simps l u using assms by simp
qed

lemma extract_range_two:
  fixes k2 k3 k4 :: string
  assumes o23: "k2 < k3" and o34: "k3 < k4" and k2: "k2 \<noteq> okey st"
  shows "extract_range \<lparr>far_entries = [(k1, f1), (k2, f2), (k3, f3), (k4, f4)], far_pos = 1\<rparr>
           k3 st i gs pre suf
         = (\<lparr>far_entries = [(k1, f1), (k2, f2), (k3, f3), (k4, f4)], far_pos = 3\<rparr>,
            \<lparr>okey = k3, nrep = 0,
             written = written st @ [(source_path gs i k2 0 pre suf, f2),
                                     (source_path gs (i + 1) k3 0 pre suf, f3)]\<rparr>,
            i + 2)"
proof -
  have n1: "\<not> k3 < k2" using o23 by (simp add: less_asym)
  have n2: "k3 \<noteq> k2" using o23 by auto
  show ?thesis
    apply (subst extract_range.simps)
    apply (simp add: far_Done_def GetKey_def GetFst_def far_Next_def FarWriteFst_def n1 k2)
    apply (subst extract_range.simps)
    apply (simp add: far_Done_def GetKey_def GetFst_def far_Next_def FarWriteFst_def n2)
    apply (subst extract_range.simps)
    apply (simp add: far_Done_def GetKey_def o34)
    done
qed

lemma extract_keys_range:
  fixes k1 k2 k3 k4 :: string
  assumes o12: "k1 < k2" and o23: "k2 < k3" and o34: "k3 < k4"
    and d: "d \<in> set range_delimiter"
    and d2: "set range_delimiter \<inter> set k2 = {}"
    and d3: "set range_delimiter \<inter> set k3 = {}"
  shows "extract_keys [k2 @ d # k3]
           \<lparr>far_entries = [(k1, f1), (k2, f2), (k3, f3), (k4, f4)], far_pos = p\<rparr>
           \<lparr>okey = [], nrep = 0, written = []\<rparr> 0 gs range_delimiter pre suf
         = (False, \<lparr>okey = k3, nrep = 0,
                    written = [(source_path gs 0 k2 0 pre suf, f2),
                               (source_path gs 1 k3 0 pre suf, f3)]\<rparr>)"
proof -
  have sp: "SplitString (k2 @ d # k3) range_delimiter False = [k2, k3]"
    using d d2 d3 by (rule SplitString_two)
  have ne2: "k2 \<noteq> []" using o12 by auto
  have ne3: "k3 \<noteq> []" using o23 by auto
  have k12: "k1 \<noteq> k2" using o12 by auto
  have fd: "Find \<lparr>far_entries = [(k1, f1), (k2, f2), (k3, f3), (k4, f4)], far_pos = p\<rparr> k2
         = (True, \<lparr>far_entries = [(k1, f1), (k2, f2), (k3, f3), (k4, f4)], far_pos = 1\<rparr>)"
    using k12 by (rule Find_second)
  have k2o: "k2 \<noteq> okey \<lparr>okey = [], nrep = 0, written = ([] :: (string \<times> 'a) list)\<rparr>"
    using ne2 by simp
  have er: "extract_range \<lparr>far_entries = [(k1, f1), (k2, f2), (k3, f3), (k4, f4)], far_pos = 1\<rparr>
           k3 \<lparr>okey = [], nrep = 0, written = []\<rparr> 0 gs pre suf
         = (\<lparr>far_entries = [(k1, f1), (k2, f2), (k3, f3), (k4, f4)], far_pos = 3\<rparr>,
            \<lparr>okey = k3, nrep = 0,
             written = written \<lparr>okey = [], nrep = 0, written = ([] :: (string \<times> 'a) list)\<rparr>
                       @ [(source_path gs 0 k2 0 pre suf, f2),
                          (source_path gs (0 + 1) k3 0 pre suf, f3)]\<rparr>,
            0 + 2)"
    using o23 o34 k2o by (rule extract_range_two)
  note fd' = fd [simplified]
  note er' = er [simplified]
  show ?thesis
    by (simp add: sp Let_def ne2 ne3 fd' er')
qed

lemma extract_keys_absent:
  assumes b: "b \<notin> fst ` set (far_entries r)"
    and d: "d \<in> set range_delimiter"
    and db: "set range_delimiter \<inter> set b = {}"
    and de: "set range_delimiter \<inter> set e = {}"
  shows "extract_keys ((b @ d # e) # ks) r st i gs range_delimiter pre suf = (True, st)"
proof -
  have sp: "SplitString (b @ d # e) range_delimiter False = [b, e]"
    using d db de by (rule SplitString_two)
  have fd: "Find r b = (False, r)" using b by (rule Find_absent)
  show ?thesis
    by (simp add: sp Let_def fd)
qed

text \<open>
  C7. The reader visits four entries whose keys are in strictly increasing order, and the
  key list is the single range \<open>k2 d k3\<close>, where \<open>d\<close> is a range delimiter that
  occurs in neither key and the key list holds no key separator. Then \<open>FarExtract\<close>
  logs no error and writes the FSTs of \<open>k2\<close> and \<open>k3\<close>, in that order and nothing
  else, under the source paths of the counters 0 and 1. For any archive, a range whose
  begin key is not a key of the archive makes \<open>FarExtract\<close> log an error and write
  nothing.
\<close>

theorem FarExtract_range:
  fixes k1 k2 k3 k4 :: string
  assumes o12: "k1 < k2" and o23: "k2 < k3" and o34: "k3 < k4"
    and d: "d \<in> set range_delimiter"
    and d2: "set range_delimiter \<inter> set k2 = {}"
    and d3: "set range_delimiter \<inter> set k3 = {}"
    and sep: "set key_separator \<inter> set (k2 @ d # k3) = {}"
  shows "FarExtract (Some \<lparr>far_entries = [(k1, f1), (k2, f2), (k3, f3), (k4, f4)], far_pos = p\<rparr>)
           generate_sources (k2 @ d # k3) key_separator range_delimiter
           source_prefix source_suffix
         = (False, [(source_path generate_sources 0 k2 0 source_prefix source_suffix, f2),
                    (source_path generate_sources 1 k3 0 source_prefix source_suffix, f3)])
       \<and> (b \<notin> fst ` set es \<longrightarrow>
          set range_delimiter \<inter> set b = {} \<longrightarrow>
          set range_delimiter \<inter> set e = {} \<longrightarrow>
          set key_separator \<inter> set (b @ d # e) = {} \<longrightarrow>
          FarExtract (Some \<lparr>far_entries = es, far_pos = q\<rparr>)
            generate_sources (b @ d # e) key_separator range_delimiter
            source_prefix source_suffix
          = (True, []))"
proof (intro conjI impI)
  have ks: "SplitString (k2 @ d # k3) key_separator True = [k2 @ d # k3]"
    using sep by (rule SplitString_none) simp
  have ek: "extract_keys [k2 @ d # k3]
           \<lparr>far_entries = [(k1, f1), (k2, f2), (k3, f3), (k4, f4)], far_pos = p\<rparr>
           \<lparr>okey = [], nrep = 0, written = []\<rparr> 0 generate_sources range_delimiter
           source_prefix source_suffix
         = (False, \<lparr>okey = k3, nrep = 0,
                    written = [(source_path generate_sources 0 k2 0 source_prefix source_suffix, f2),
                               (source_path generate_sources 1 k3 0 source_prefix source_suffix, f3)]\<rparr>)"
    using o12 o23 o34 d d2 d3 by (rule extract_keys_range)
  show "FarExtract (Some \<lparr>far_entries = [(k1, f1), (k2, f2), (k3, f3), (k4, f4)], far_pos = p\<rparr>)
           generate_sources (k2 @ d # k3) key_separator range_delimiter
           source_prefix source_suffix
         = (False, [(source_path generate_sources 0 k2 0 source_prefix source_suffix, f2),
                    (source_path generate_sources 1 k3 0 source_prefix source_suffix, f3)])"
    unfolding FarExtract_def option.case Let_def ks ek by simp
next
  assume b: "b \<notin> fst ` set es"
    and db: "set range_delimiter \<inter> set b = {}"
    and de: "set range_delimiter \<inter> set e = {}"
    and sb: "set key_separator \<inter> set (b @ d # e) = {}"
  have ks: "SplitString (b @ d # e) key_separator True = [b @ d # e]"
    using sb by (rule SplitString_none) simp
  have b': "b \<notin> fst ` set (far_entries \<lparr>far_entries = es, far_pos = q\<rparr>)"
    using b by simp
  have ek: "extract_keys ((b @ d # e) # []) \<lparr>far_entries = es, far_pos = q\<rparr>
              \<lparr>okey = [], nrep = 0, written = []\<rparr> 0 generate_sources range_delimiter
              source_prefix source_suffix
            = (True, \<lparr>okey = [], nrep = 0, written = []\<rparr>)"
    using b' d db de by (rule extract_keys_absent)
  show "FarExtract (Some \<lparr>far_entries = es, far_pos = q\<rparr>)
            generate_sources (b @ d # e) key_separator range_delimiter
            source_prefix source_suffix
          = (True, [])"
    unfolding FarExtract_def option.case Let_def ks ek by simp
qed

theorem FarExtract_range_witness:
  "(''k1'' < ''k2'' \<and> ''k2'' < ''k3'' \<and> ''k3'' < ''k4''
    \<and> CHR ''-'' \<in> set ''-''
    \<and> set ''-'' \<inter> set ''k2'' = {} \<and> set ''-'' \<inter> set ''k3'' = {}
    \<and> set '','' \<inter> set ''k2-k3'' = {})
   \<and> FarExtract (Some \<lparr>far_entries = [(''k1'', 1::nat), (''k2'', 2), (''k3'', 3), (''k4'', 4)],
                        far_pos = 0\<rparr>)
        0 ''k2-k3'' '','' ''-'' ''out/'' ''.fst''
      = (False, [(''out/k2.fst'', 2), (''out/k3.fst'', 3)])
   \<and> (''k0'' \<notin> fst ` set [(''k1'', 1::nat), (''k2'', 2), (''k3'', 3), (''k4'', 4)]
      \<and> set ''-'' \<inter> set ''k0'' = {} \<and> set '','' \<inter> set ''k0-k3'' = {})
   \<and> FarExtract (Some \<lparr>far_entries = [(''k1'', 1::nat), (''k2'', 2), (''k3'', 3), (''k4'', 4)],
                        far_pos = 0\<rparr>)
        0 ''k0-k3'' '','' ''-'' ''out/'' ''.fst''
      = (True, [])"
  using FarExtract_range [where ?k1.0 = "''k1''" and ?k2.0 = "''k2''" and ?k3.0 = "''k3''"
      and ?k4.0 = "''k4''" and d = "CHR ''-''" and range_delimiter = "''-''"
      and key_separator = "'',''" and ?f1.0 = "1::nat" and ?f2.0 = 2 and ?f3.0 = 3 and ?f4.0 = 4
      and p = 0 and q = 0 and generate_sources = 0 and source_prefix = "''out/''"
      and source_suffix = "''.fst''" and b = "''k0''" and e = "''k3''"
      and es = "[(''k1'', 1::nat), (''k2'', 2), (''k3'', 3), (''k4'', 4)]"]
  by (simp add: source_path_def)

subsection \<open>Weights and properties\<close>


text \<open>
  C10. When the \<open>Error\<close> property bit of a compact FST is set, \<open>NumStates\<close> returns 0,
  whatever number of states its store records.
\<close>

theorem NumStates_Error:
  "Properties impl kError \<noteq> 0 \<Longrightarrow> NumStates impl = 0"
  by (simp add: NumStates_def)

theorem NumStates_Error_witness:
  "Properties
     ((CompactFstImpl_new (StringCompactor (1::nat))
        ((DefaultCompactStore_default :: (int, 32 word) DefaultCompactStore)\<lparr>nstates := 3\<rparr>))
      \<lparr>properties := kError\<rparr>) kError \<noteq> 0
   \<and> NumStates
     ((CompactFstImpl_new (StringCompactor (1::nat))
        ((DefaultCompactStore_default :: (int, 32 word) DefaultCompactStore)\<lparr>nstates := 3\<rparr>))
      \<lparr>properties := kError\<rparr>) = 0
   \<and> nstates (data
     ((CompactFstImpl_new (StringCompactor (1::nat))
        ((DefaultCompactStore_default :: (int, 32 word) DefaultCompactStore)\<lparr>nstates := 3\<rparr>))
      \<lparr>properties := kError\<rparr>)) = 3"
proof -
  let ?impl = "(CompactFstImpl_new (StringCompactor (1::nat))
        ((DefaultCompactStore_default :: (int, 32 word) DefaultCompactStore)\<lparr>nstates := 3\<rparr>))
      \<lparr>properties := kError\<rparr>"
  have h: "Properties ?impl kError \<noteq> 0"
    by (simp add: Properties_def kError_def)
  show ?thesis
    using h NumStates_Error [OF h] by (simp add: CompactFstImpl_new_def)
qed


end
